theory Spec2Isabelle
  imports Main
begin

section \<open>The scaffolder task broker\<close>

text \<open>
  A shallow embedding of
  \<^verbatim>\<open>plugins/scaffolder-backend/src/scaffolder/tasks/StorageTaskBroker.ts\<close> and of the
  declarations of \<^verbatim>\<open>types.ts\<close> it uses.

  The TypeScript is asynchronous: a function runs until an \<^verbatim>\<open>await\<close>, is suspended there,
  and its continuation runs later, when the awaited promise has settled. Every asynchronous
  function is therefore cut at its \<^verbatim>\<open>await\<close>s. The place where a call is suspended is a
  value of a datatype (its program counter), and each piece of code between two
  suspensions is a HOL function from the state before to the state after. A settled promise
  is a value of \<open>Error + 'a\<close>: \<open>Inl e\<close> is a rejection with \<open>e\<close>, \<open>Inr v\<close> a fulfilment
  with \<open>v\<close>. A schedule is a list of the things the environment does (the storage settles a
  call, a timer elapses, somebody calls a method); running a schedule is a fold.
\<close>

subsection \<open>types.ts\<close>

datatype Status = Open | Processing | Failed | Cancelled | Completed

datatype CompletedTaskState = ResultFailed | ResultCompleted

datatype TaskEventType = Completion | Log

datatype JsonValue =
    JNull
  | JBool bool
  | JNumber int
  | JString string
  | JArray "JsonValue list"
  | JObject "(string \<times> JsonValue) list"

type_synonym JsonObject = "(string \<times> JsonValue) list"

record TaskStep =
  step_id :: string
  step_name :: string
  step_action :: string
  step_parameters :: "JsonObject option"

record TaskSpec =
  steps :: "TaskStep list"

text \<open>
  \<^verbatim>\<open>runId?: string\<close>: a row that was never claimed has no run id (\<open>None\<close>).
\<close>

record DbTaskRow =
  row_id :: string
  row_spec :: TaskSpec
  row_status :: Status
  row_lastHeartbeat :: "string option"
  row_retryCount :: nat
  row_createdAt :: string
  row_runId :: "string option"

record DbTaskEventRow =
  ev_id :: int
  ev_runId :: "string option"
  ev_taskId :: string
  ev_body :: JsonObject
  ev_type :: TaskEventType
  ev_createdAt :: string

record DispatchResult =
  res_taskId :: string

record TaskStoreEmitOptions =
  emit_taskId :: string
  emit_runId :: "string option"
  emit_body :: JsonObject
  emit_type :: TaskEventType

record TaskStoreGetEventsOptions =
  get_taskId :: string
  get_after :: "int option"

text \<open>A thrown value or the reason of a rejected promise: \<^verbatim>\<open>new Error(message)\<close>.\<close>

datatype Error = Error string

text \<open>
  The calls of the \<^verbatim>\<open>TaskStore\<close> interface that the broker and the agent issue, with their
  arguments. The storage itself is outside this file: its answers are given by the
  environment.
\<close>

datatype StorageCall =
    CreateTaskCall TaskSpec
  | ClaimTaskCall
  | HeartbeatCall "string option"
  | SetStatusCall "string option" Status
  | EmitCall TaskStoreEmitOptions
  | GetEventsCall TaskStoreGetEventsOptions

subsection \<open>Timers of the event loop\<close>

text \<open>
  \<^verbatim>\<open>setInterval\<close> returns a fresh handle and the timer fires until \<^verbatim>\<open>clearInterval\<close> removes
  it. Handles are counted up from \<open>nextHandle\<close>.
\<close>

record EventLoop =
  nextHandle :: nat
  intervals :: "nat list"

definition setInterval_ts :: "EventLoop \<Rightarrow> nat \<times> EventLoop" where
  "setInterval_ts l =
     (nextHandle l, l\<lparr>nextHandle := Suc (nextHandle l), intervals := intervals l @ [nextHandle l]\<rparr>)"

definition clearInterval_ts :: "nat \<Rightarrow> EventLoop \<Rightarrow> EventLoop" where
  "clearInterval_ts h l = l\<lparr>intervals := removeAll h (intervals l)\<rparr>"

subsection \<open>TaskAgent\<close>

text \<open>
  \<^verbatim>\<open>interface TaskState { spec: TaskSpec; taskId: string; runId: string }\<close>. The broker
  fills \<open>runId\<close> with \<^verbatim>\<open>pendingTask.runId!\<close>, and the non-null assertion checks nothing when
  the program runs: the field holds \<^verbatim>\<open>undefined\<close> when the row has no run id. So the field is
  an option here.
\<close>

record TaskState =
  spec :: TaskSpec
  taskId :: string
  runId :: "string option"

record TaskAgent =
  state :: TaskState
  heartbeatInterval :: "nat option"

text \<open>\<^verbatim>\<open>!x\<close> for a string or \<^verbatim>\<open>undefined\<close>: true for \<^verbatim>\<open>undefined\<close> and for the empty string.\<close>

definition falsy :: "string option \<Rightarrow> bool" where
  "falsy x = (case x of None \<Rightarrow> True | Some s \<Rightarrow> s = [])"

text \<open>A value inside a template literal: \<^verbatim>\<open>undefined\<close> prints as the word.\<close>

definition template :: "string option \<Rightarrow> string" where
  "template x = (case x of None \<Rightarrow> ''undefined'' | Some s \<Rightarrow> s)"

definition result_string :: "CompletedTaskState \<Rightarrow> string" where
  "result_string r = (case r of ResultFailed \<Rightarrow> ''failed'' | ResultCompleted \<Rightarrow> ''completed'')"

definition getWorkspaceName :: "TaskAgent \<Rightarrow> string" where
  "getWorkspaceName a = taskId (state a) @ ''_'' @ template (runId (state a))"

text \<open>
  The closure given to \<^verbatim>\<open>setInterval\<close> in \<^verbatim>\<open>start\<close>: it throws, or it issues one heartbeat
  call, whose promise it drops.
\<close>

definition heartbeat_tick :: "TaskAgent \<Rightarrow> Error + StorageCall" where
  "heartbeat_tick a =
     (if falsy (runId (state a)) then Inl (Error ''no run id provided'')
      else Inr (HeartbeatCall (runId (state a))))"

definition TaskAgent_start :: "TaskAgent \<Rightarrow> EventLoop \<Rightarrow> TaskAgent \<times> EventLoop" where
  "TaskAgent_start a l =
     (case setInterval_ts l of (h, l') \<Rightarrow> (a\<lparr>heartbeatInterval := Some h\<rparr>, l'))"

definition TaskAgent_create :: "TaskState \<Rightarrow> EventLoop \<Rightarrow> TaskAgent \<times> EventLoop" where
  "TaskAgent_create st l = TaskAgent_start \<lparr>state = st, heartbeatInterval = None\<rparr> l"

text \<open>The storage call of \<^verbatim>\<open>emitLog(message)\<close>, which the method awaits.\<close>

definition emitLog_call :: "TaskAgent \<Rightarrow> string \<Rightarrow> StorageCall" where
  "emitLog_call a message =
     EmitCall \<lparr>emit_taskId = taskId (state a), emit_runId = runId (state a),
               emit_body = [(''message'', JString message)], emit_type = Log\<rparr>"

text \<open>The first storage call of \<^verbatim>\<open>complete(result)\<close>, which the method awaits.\<close>

definition complete_setStatus :: "TaskAgent \<Rightarrow> CompletedTaskState \<Rightarrow> StorageCall" where
  "complete_setStatus a result =
     SetStatusCall (runId (state a)) (if result = ResultFailed then Failed else Completed)"

text \<open>The second storage call of \<^verbatim>\<open>complete(result)\<close>, whose promise the method drops.\<close>

definition complete_emit :: "TaskAgent \<Rightarrow> CompletedTaskState \<Rightarrow> StorageCall" where
  "complete_emit a result =
     EmitCall \<lparr>emit_taskId = taskId (state a), emit_runId = runId (state a),
               emit_body = [(''message'',
                   JString (''Run completed with status: '' @ result_string result))],
               emit_type = Completion\<rparr>"

text \<open>
  A call of an agent method that has been made: where it is suspended, or how it ended.
\<close>

datatype OpPc =
    EmitLogAwaitEmit
  | CompleteAwaitSetStatus CompletedTaskState
  | OpResolved
  | OpRejected Error

text \<open>
  One agent in its process. \<open>calls\<close> are the storage calls issued so far, oldest first;
  \<open>ops\<close> the method calls made so far; \<open>uncaught\<close> the errors thrown out of the timer's
  closure; \<open>unhandled\<close> the rejections of promises nobody awaits.
\<close>

record AgentSys =
  agent :: TaskAgent
  loop :: EventLoop
  calls :: "StorageCall list"
  ops :: "OpPc list"
  uncaught :: "Error list"
  unhandled :: "Error list"

datatype AgentAction =
    TimerFires nat
  | CallEmitLog string
  | CallComplete CompletedTaskState
  | AwaitedSettles nat "Error + unit"
  | UnawaitedRejects Error

definition agent_init :: "TaskState \<Rightarrow> EventLoop \<Rightarrow> AgentSys" where
  "agent_init st l =
     (case TaskAgent_create st l of
        (a, l') \<Rightarrow> \<lparr>agent = a, loop = l', calls = [], ops = [], uncaught = [], unhandled = []\<rparr>)"

text \<open>The interval \<open>h\<close> elapses: its closure runs if the timer has not been cleared.\<close>

definition timer_fires :: "nat \<Rightarrow> AgentSys \<Rightarrow> AgentSys" where
  "timer_fires h s =
     (if h \<in> set (intervals (loop s)) \<and> heartbeatInterval (agent s) = Some h then
        (case heartbeat_tick (agent s) of
           Inl e \<Rightarrow> s\<lparr>uncaught := uncaught s @ [e]\<rparr>
         | Inr c \<Rightarrow> s\<lparr>calls := calls s @ [c]\<rparr>)
      else s)"

text \<open>
  The continuation of \<^verbatim>\<open>complete\<close> after \<^verbatim>\<open>await this.storage.setStatus(...)\<close>: a rejection
  leaves the method there; otherwise the completion event is emitted without \<^verbatim>\<open>await\<close> and
  the interval is cleared.
\<close>

definition complete_resume :: "nat \<Rightarrow> CompletedTaskState \<Rightarrow> Error + unit \<Rightarrow> AgentSys \<Rightarrow> AgentSys" where
  "complete_resume k result r s =
     (case r of
        Inl e \<Rightarrow> s\<lparr>ops := (ops s)[k := OpRejected e]\<rparr>
      | Inr _ \<Rightarrow>
          s\<lparr>calls := calls s @ [complete_emit (agent s) result],
            loop := (case heartbeatInterval (agent s) of
                       None \<Rightarrow> loop s
                     | Some h \<Rightarrow> clearInterval_ts h (loop s)),
            ops := (ops s)[k := OpResolved]\<rparr>)"

text \<open>The continuation of \<^verbatim>\<open>emitLog\<close> after \<^verbatim>\<open>await this.storage.emit(...)\<close>.\<close>

definition emitLog_resume :: "nat \<Rightarrow> Error + unit \<Rightarrow> AgentSys \<Rightarrow> AgentSys" where
  "emitLog_resume k r s =
     (case r of
        Inl e \<Rightarrow> s\<lparr>ops := (ops s)[k := OpRejected e]\<rparr>
      | Inr _ \<Rightarrow> s\<lparr>ops := (ops s)[k := OpResolved]\<rparr>)"

definition agent_step :: "AgentAction \<Rightarrow> AgentSys \<Rightarrow> AgentSys" where
  "agent_step act s =
     (case act of
        TimerFires h \<Rightarrow> timer_fires h s
      | CallEmitLog message \<Rightarrow>
          s\<lparr>calls := calls s @ [emitLog_call (agent s) message],
            ops := ops s @ [EmitLogAwaitEmit]\<rparr>
      | CallComplete result \<Rightarrow>
          s\<lparr>calls := calls s @ [complete_setStatus (agent s) result],
            ops := ops s @ [CompleteAwaitSetStatus result]\<rparr>
      | AwaitedSettles k r \<Rightarrow>
          (if k < length (ops s) then
             (case ops s ! k of
                EmitLogAwaitEmit \<Rightarrow> emitLog_resume k r s
              | CompleteAwaitSetStatus result \<Rightarrow> complete_resume k result r s
              | OpResolved \<Rightarrow> s
              | OpRejected e \<Rightarrow> s)
           else s)
      | UnawaitedRejects e \<Rightarrow> s\<lparr>unhandled := unhandled s @ [e]\<rparr>)"

definition agent_run :: "AgentAction list \<Rightarrow> AgentSys \<Rightarrow> AgentSys" where
  "agent_run acts s = fold agent_step acts s"

definition is_heartbeat :: "StorageCall \<Rightarrow> bool" where
  "is_heartbeat c = (case c of HeartbeatCall r \<Rightarrow> True | _ \<Rightarrow> False)"

definition heartbeats :: "AgentSys \<Rightarrow> StorageCall list" where
  "heartbeats s = filter is_heartbeat (calls s)"

subsection \<open>StorageTaskBroker: the dispatch gate\<close>

text \<open>
  \<^verbatim>\<open>defer()\<close> makes a new promise and the function that resolves it. The promises of the
  gate are numbered in the order in which they are made: the constructor makes number 0,
  and \<^verbatim>\<open>signalDispatch\<close> resolves the current one and installs the next. \<open>resolved\<close> lists
  the promises that have been resolved.
\<close>

record Broker =
  deferredDispatch :: nat
  resolved :: "nat list"

definition broker_new :: Broker where
  "broker_new = \<lparr>deferredDispatch = 0, resolved = []\<rparr>"

definition waitForDispatch :: "Broker \<Rightarrow> nat" where
  "waitForDispatch b = deferredDispatch b"

definition signalDispatch :: "Broker \<Rightarrow> Broker" where
  "signalDispatch b =
     b\<lparr>resolved := resolved b @ [deferredDispatch b], deferredDispatch := Suc (deferredDispatch b)\<rparr>"

subsection \<open>StorageTaskBroker: claim and dispatch\<close>

text \<open>
  One call of \<^verbatim>\<open>claim()\<close>. Between the moment the storage decides its answer to
  \<^verbatim>\<open>claimTask\<close> and the moment the continuation of \<^verbatim>\<open>claim\<close> runs with that answer, other
  continuations of the process may run: the answer is computed by the storage (a database
  transaction, several round trips) and only then travels back through the promise. So the
  call is in flight, then answered, and only then does \<^verbatim>\<open>claim\<close> continue.
\<close>

datatype ClaimPc =
    ClaimTaskInFlight
  | ClaimTaskAnswered "Error + DbTaskRow option"
  | ClaimAwaitDispatch nat
  | ClaimResolved TaskAgent
  | ClaimRejected Error

text \<open>One call of \<^verbatim>\<open>dispatch(spec)\<close>; \<^verbatim>\<open>createTask\<close> answers with the new task's id.\<close>

datatype DispatchPc =
    CreateTaskInFlight TaskSpec
  | CreateTaskAnswered "Error + string"
  | DispatchResolved DispatchResult
  | DispatchRejected Error

text \<open>
  A broker, one call of \<^verbatim>\<open>claim()\<close> on it, and the calls of \<^verbatim>\<open>dispatch\<close> made so far.
  \<open>issued\<close> are the storage calls issued, oldest first.
\<close>

record BrokerSys =
  gate :: Broker
  claimer :: ClaimPc
  dispatchers :: "DispatchPc list"
  timers :: EventLoop
  issued :: "StorageCall list"

datatype BrokerAction =
    ClaimTaskSettles "Error + DbTaskRow option"
  | ClaimContinues
  | CallDispatch TaskSpec
  | CreateTaskSettles nat "Error + string"
  | DispatchContinues nat

text \<open>\<^verbatim>\<open>claim()\<close> is called: the loop is entered and \<^verbatim>\<open>claimTask\<close> is issued.\<close>

definition claim_called :: "Broker \<Rightarrow> EventLoop \<Rightarrow> BrokerSys" where
  "claim_called b l =
     \<lparr>gate = b, claimer = ClaimTaskInFlight, dispatchers = [], timers = l,
      issued = [ClaimTaskCall]\<rparr>"

text \<open>
  The continuation of \<^verbatim>\<open>claim\<close>. After \<^verbatim>\<open>await this.storage.claimTask()\<close>: a rejection is
  thrown out of \<^verbatim>\<open>claim\<close>; a row makes the agent, which is returned; no row evaluates
  \<^verbatim>\<open>this.waitForDispatch()\<close>, the current promise of the gate, and awaits it. After
  \<^verbatim>\<open>await this.waitForDispatch()\<close>, which continues only when that promise is resolved: the
  loop starts over and issues \<^verbatim>\<open>claimTask\<close> again.
\<close>

fun claim_continue :: "ClaimPc \<Rightarrow> BrokerSys \<Rightarrow> BrokerSys" where
  "claim_continue (ClaimTaskAnswered (Inl e)) s = s\<lparr>claimer := ClaimRejected e\<rparr>"
| "claim_continue (ClaimTaskAnswered (Inr (Some pendingTask))) s =
     (case TaskAgent_create
             \<lparr>spec = row_spec pendingTask, taskId = row_id pendingTask,
              runId = row_runId pendingTask\<rparr> (timers s) of
        (a, l) \<Rightarrow> s\<lparr>claimer := ClaimResolved a, timers := l\<rparr>)"
| "claim_continue (ClaimTaskAnswered (Inr None)) s =
     s\<lparr>claimer := ClaimAwaitDispatch (waitForDispatch (gate s))\<rparr>"
| "claim_continue (ClaimAwaitDispatch g) s =
     (if g \<in> set (resolved (gate s)) then
        s\<lparr>claimer := ClaimTaskInFlight, issued := issued s @ [ClaimTaskCall]\<rparr>
      else s)"
| "claim_continue ClaimTaskInFlight s = s"
| "claim_continue (ClaimResolved a) s = s"
| "claim_continue (ClaimRejected e) s = s"

text \<open>
  The continuation of \<^verbatim>\<open>dispatch\<close> number \<open>j\<close> after \<^verbatim>\<open>await this.storage.createTask(spec)\<close>.
\<close>

fun dispatch_continue :: "nat \<Rightarrow> DispatchPc \<Rightarrow> BrokerSys \<Rightarrow> BrokerSys" where
  "dispatch_continue j (CreateTaskAnswered (Inl e)) s =
     s\<lparr>dispatchers := (dispatchers s)[j := DispatchRejected e]\<rparr>"
| "dispatch_continue j (CreateTaskAnswered (Inr tid)) s =
     s\<lparr>gate := signalDispatch (gate s),
       dispatchers := (dispatchers s)[j := DispatchResolved \<lparr>res_taskId = tid\<rparr>]\<rparr>"
| "dispatch_continue j (CreateTaskInFlight sp) s = s"
| "dispatch_continue j (DispatchResolved r) s = s"
| "dispatch_continue j (DispatchRejected e) s = s"

definition broker_step :: "BrokerAction \<Rightarrow> BrokerSys \<Rightarrow> BrokerSys" where
  "broker_step act s =
     (case act of
        ClaimTaskSettles r \<Rightarrow>
          (if claimer s = ClaimTaskInFlight then s\<lparr>claimer := ClaimTaskAnswered r\<rparr> else s)
      | ClaimContinues \<Rightarrow> claim_continue (claimer s) s
      | CallDispatch sp \<Rightarrow>
          s\<lparr>dispatchers := dispatchers s @ [CreateTaskInFlight sp],
            issued := issued s @ [CreateTaskCall sp]\<rparr>
      | CreateTaskSettles j r \<Rightarrow>
          (if j < length (dispatchers s) then
             (case dispatchers s ! j of
                CreateTaskInFlight sp \<Rightarrow>
                  s\<lparr>dispatchers := (dispatchers s)[j := CreateTaskAnswered r]\<rparr>
              | CreateTaskAnswered r' \<Rightarrow> s
              | DispatchResolved d \<Rightarrow> s
              | DispatchRejected e \<Rightarrow> s)
           else s)
      | DispatchContinues j \<Rightarrow>
          (if j < length (dispatchers s) then dispatch_continue j (dispatchers s ! j) s else s))"

definition broker_run :: "BrokerAction list \<Rightarrow> BrokerSys \<Rightarrow> BrokerSys" where
  "broker_run acts s = fold broker_step acts s"

definition is_claimTask :: "StorageCall \<Rightarrow> bool" where
  "is_claimTask c = (case c of ClaimTaskCall \<Rightarrow> True | _ \<Rightarrow> False)"

definition attempts :: "BrokerSys \<Rightarrow> nat" where
  "attempts s = length (filter is_claimTask (issued s))"

text \<open>The state of the agent that \<^verbatim>\<open>claim\<close> builds from a row.\<close>

definition state_of_row :: "DbTaskRow \<Rightarrow> TaskState" where
  "state_of_row pendingTask =
     \<lparr>spec = row_spec pendingTask, taskId = row_id pendingTask, runId = row_runId pendingTask\<rparr>"

subsection \<open>The storage contract\<close>

text \<open>
  Modelled from the spec: the implementation of \<^verbatim>\<open>TaskStore\<close> is not among the sources
  (only the interface is, in \<^verbatim>\<open>types.ts\<close>). The functions below follow section 6 of the
  specification: \<^verbatim>\<open>createTask\<close> persists a new open task with retry counter zero;
  \<^verbatim>\<open>claimTask\<close> selects one open task, makes it \<^verbatim>\<open>processing\<close>, assigns a fresh run id and
  returns the row, or returns nothing when no task is open; \<^verbatim>\<open>emit\<close> appends an event row
  with the next sequence number of its task; \<^verbatim>\<open>getEvents\<close> returns the task's events whose
  sequence number is greater than \<^verbatim>\<open>after\<close>, in ascending order (all of them when \<^verbatim>\<open>after\<close>
  is absent). Fresh identifiers are chosen by the storage and are arguments here; \<open>clock\<close>
  is what the storage writes as a creation time.
\<close>

record Store =
  tasks :: "DbTaskRow list"
  events :: "DbTaskEventRow list"
  clock :: string

definition store_empty :: Store where
  "store_empty = \<lparr>tasks = [], events = [], clock = []\<rparr>"

definition createTask_store :: "string \<Rightarrow> TaskSpec \<Rightarrow> Store \<Rightarrow> string \<times> Store" where
  "createTask_store tid sp st =
     (tid, st\<lparr>tasks := tasks st @
        [\<lparr>row_id = tid, row_spec = sp, row_status = Open, row_lastHeartbeat = None,
          row_retryCount = 0, row_createdAt = clock st, row_runId = None\<rparr>]\<rparr>)"

fun claim_first :: "string \<Rightarrow> DbTaskRow list \<Rightarrow> DbTaskRow option \<times> DbTaskRow list" where
  "claim_first rid [] = (None, [])"
| "claim_first rid (t # ts) =
     (if row_status t = Open then
        (Some (t\<lparr>row_status := Processing, row_runId := Some rid\<rparr>),
         t\<lparr>row_status := Processing, row_runId := Some rid\<rparr> # ts)
      else (case claim_first rid ts of (r, ts') \<Rightarrow> (r, t # ts')))"

definition claimTask_store :: "string \<Rightarrow> Store \<Rightarrow> DbTaskRow option \<times> Store" where
  "claimTask_store rid st =
     (case claim_first rid (tasks st) of (r, ts) \<Rightarrow> (r, st\<lparr>tasks := ts\<rparr>))"

definition events_of :: "string \<Rightarrow> Store \<Rightarrow> DbTaskEventRow list" where
  "events_of t st = filter (\<lambda>e. ev_taskId e = t) (events st)"

definition next_seq :: "string \<Rightarrow> Store \<Rightarrow> int" where
  "next_seq t st = (case events_of t st of [] \<Rightarrow> 1 | e # es \<Rightarrow> ev_id (last (e # es)) + 1)"

definition emit_store :: "TaskStoreEmitOptions \<Rightarrow> Store \<Rightarrow> Store" where
  "emit_store opts st =
     st\<lparr>events := events st @
        [\<lparr>ev_id = next_seq (emit_taskId opts) st, ev_runId = emit_runId opts,
          ev_taskId = emit_taskId opts, ev_body = emit_body opts, ev_type = emit_type opts,
          ev_createdAt = clock st\<rparr>]\<rparr>"

definition newer :: "int option \<Rightarrow> DbTaskEventRow \<Rightarrow> bool" where
  "newer a e = (case a of None \<Rightarrow> True | Some n \<Rightarrow> n < ev_id e)"

definition getEvents_store :: "TaskStoreGetEventsOptions \<Rightarrow> Store \<Rightarrow> DbTaskEventRow list" where
  "getEvents_store opts st = filter (newer (get_after opts)) (events_of (get_taskId opts) st)"

subsection \<open>The broker with a storage\<close>

text \<open>
  The broker of above, with the answers of \<^verbatim>\<open>claimTask\<close> and \<^verbatim>\<open>createTask\<close> computed by the
  storage at the moment it runs the call.
\<close>

record System =
  store :: Store
  brokerSys :: BrokerSys

datatype SystemAction =
    StoreRunsClaimTask string
  | StoreRunsCreateTask nat string
  | Continue BrokerAction

definition is_settle :: "BrokerAction \<Rightarrow> bool" where
  "is_settle a =
     (case a of ClaimTaskSettles r \<Rightarrow> True | CreateTaskSettles j r \<Rightarrow> True | _ \<Rightarrow> False)"

definition system_step :: "SystemAction \<Rightarrow> System \<Rightarrow> System" where
  "system_step act s =
     (case act of
        StoreRunsClaimTask rid \<Rightarrow>
          (if claimer (brokerSys s) = ClaimTaskInFlight then
             (case claimTask_store rid (store s) of
                (r, st) \<Rightarrow>
                  \<lparr>store = st, brokerSys = broker_step (ClaimTaskSettles (Inr r)) (brokerSys s)\<rparr>)
           else s)
      | StoreRunsCreateTask j tid \<Rightarrow>
          (if j < length (dispatchers (brokerSys s)) then
             (case dispatchers (brokerSys s) ! j of
                CreateTaskInFlight sp \<Rightarrow>
                  (case createTask_store tid sp (store s) of
                     (t, st) \<Rightarrow>
                       \<lparr>store = st,
                        brokerSys = broker_step (CreateTaskSettles j (Inr t)) (brokerSys s)\<rparr>)
              | CreateTaskAnswered r \<Rightarrow> s
              | DispatchResolved d \<Rightarrow> s
              | DispatchRejected e \<Rightarrow> s)
           else s)
      | Continue a \<Rightarrow>
          (if is_settle a then s else s\<lparr>brokerSys := broker_step a (brokerSys s)\<rparr>))"

definition system_run :: "SystemAction list \<Rightarrow> System \<Rightarrow> System" where
  "system_run acts s = fold system_step acts s"

text \<open>A fresh broker on an empty storage, and \<^verbatim>\<open>claim()\<close> called on it.\<close>

definition system_claiming :: System where
  "system_claiming =
     \<lparr>store = store_empty,
      brokerSys = claim_called broker_new \<lparr>nextHandle = 0, intervals = []\<rparr>\<rparr>"

subsection \<open>StorageTaskBroker: observe\<close>

text \<open>
  What a \<^verbatim>\<open>throw\<close> can throw and a \<^verbatim>\<open>catch\<close> can catch: any value, among them \<^verbatim>\<open>undefined\<close>.
  The first parameter of the callback is declared \<^verbatim>\<open>Error | undefined\<close>, but inside
  \<^verbatim>\<open>catch (error)\<close> the loop passes on whatever was thrown, so the first argument is a
  value of this type; \<open>Undefined\<close> is what the loop passes with a batch.
\<close>

datatype JsValue = Undefined | ErrorValue Error | OtherValue JsonValue

text \<open>
  The callback is the caller's code. Two things it does matter to the loop: whether an
  invocation returns or throws (\<open>thrown\<close>, the value thrown, if any), and whether it calls
  the \<^verbatim>\<open>unsubscribe\<close> handle of its subscription while it runs (\<open>unsubscribed\<close>). Both may
  depend on everything the callback has been given so far: a callback is a function from the
  arguments of all its invocations, the current one last, to the outcome of the current one.
\<close>

record Outcome =
  thrown :: "JsValue option"
  unsubscribed :: bool

type_synonym CallbackArgs = "JsValue \<times> DbTaskEventRow list"

type_synonym Callback = "CallbackArgs list \<Rightarrow> Outcome"

text \<open>
  One invocation of the callback: its two arguments; whether it was made in the
  \<^verbatim>\<open>catch\<close> block; the values the variables \<^verbatim>\<open>after\<close> and \<^verbatim>\<open>cancelled\<close> had when it began;
  and what it threw.
\<close>

record Invocation =
  inv_error :: JsValue
  inv_events :: "DbTaskEventRow list"
  inv_catch :: bool
  inv_after :: "int option"
  inv_cancelled :: bool
  inv_thrown :: "JsValue option"

text \<open>
  Where the asynchronous function of a subscription is: awaiting \<^verbatim>\<open>getEvents\<close>, awaiting
  the timeout, returned, or left by an exception (a rejected \<^verbatim>\<open>getEvents\<close>, or a value the
  callback threw inside \<^verbatim>\<open>catch\<close>); nothing awaits its promise.
\<close>

datatype ObservePc =
    GetEventsInFlight TaskStoreGetEventsOptions
  | Sleeping
  | Exited
  | ObserveFailed Error
  | CallbackThrew JsValue

text \<open>
  One subscription: the variables \<^verbatim>\<open>taskId\<close>, \<^verbatim>\<open>after\<close> and \<^verbatim>\<open>cancelled\<close> of the closure,
  where the loop is, the invocations of the callback and the \<^verbatim>\<open>getEvents\<close> calls issued so
  far, oldest first.
\<close>

record Observer =
  obs_taskId :: string
  after :: "int option"
  cancelled :: bool
  pc :: ObservePc
  invocations :: "Invocation list"
  polls :: "TaskStoreGetEventsOptions list"

definition args_of :: "Invocation \<Rightarrow> CallbackArgs" where
  "args_of i = (inv_error i, inv_events i)"

text \<open>
  \<^verbatim>\<open>callback(error, { events })\<close>, in the \<^verbatim>\<open>try\<close> block or in the \<^verbatim>\<open>catch\<close> block: the
  invocation is recorded, \<^verbatim>\<open>cancelled\<close> is set if the callback called \<^verbatim>\<open>unsubscribe\<close>, and the
  result is what the callback threw.
\<close>

definition invoke :: "Callback \<Rightarrow> bool \<Rightarrow> JsValue \<Rightarrow> DbTaskEventRow list \<Rightarrow> Observer
    \<Rightarrow> JsValue option \<times> Observer" where
  "invoke cb in_catch err evs ob =
     (thrown (cb (map args_of (invocations ob) @ [(err, evs)])),
      ob\<lparr>invocations := invocations ob @
            [\<lparr>inv_error = err, inv_events = evs, inv_catch = in_catch, inv_after = after ob,
              inv_cancelled = cancelled ob,
              inv_thrown = thrown (cb (map args_of (invocations ob) @ [(err, evs)]))\<rparr>],
         cancelled :=
           (cancelled ob \<or> unsubscribed (cb (map args_of (invocations ob) @ [(err, evs)])))\<rparr>)"

text \<open>
  The head of the loop, \<^verbatim>\<open>while (!cancelled)\<close>, up to the \<^verbatim>\<open>await\<close> of \<^verbatim>\<open>getEvents\<close>.
\<close>

definition loop_head :: "Observer \<Rightarrow> Observer" where
  "loop_head ob =
     (if cancelled ob then ob\<lparr>pc := Exited\<rparr>
      else ob\<lparr>pc := GetEventsInFlight \<lparr>get_taskId = obs_taskId ob, get_after = after ob\<rparr>,
              polls := polls ob @ [\<lparr>get_taskId = obs_taskId ob, get_after = after ob\<rparr>]\<rparr>)"

text \<open>
  \<^verbatim>\<open>observe(options, callback)\<close>: the asynchronous function is started and runs to its first
  \<^verbatim>\<open>await\<close> before \<^verbatim>\<open>observe\<close> returns \<^verbatim>\<open>unsubscribe\<close>.
\<close>

definition observe :: "TaskStoreGetEventsOptions \<Rightarrow> Observer" where
  "observe options =
     loop_head \<lparr>obs_taskId = get_taskId options, after = get_after options, cancelled = False,
                pc = Sleeping, invocations = [], polls = []\<rparr>"

definition unsubscribe :: "Observer \<Rightarrow> Observer" where
  "unsubscribe ob = ob\<lparr>cancelled := True\<rparr>"

text \<open>
  The body of the loop after \<^verbatim>\<open>await this.storage.getEvents(...)\<close>, up to the \<^verbatim>\<open>await\<close> of the
  timeout. \<^verbatim>\<open>cancelled\<close> is not read here. A rejection leaves the asynchronous function, and
  so does a value thrown by the callback inside \<^verbatim>\<open>catch\<close>.
\<close>

definition observe_resume :: "Callback \<Rightarrow> Error + DbTaskEventRow list \<Rightarrow> Observer \<Rightarrow> Observer" where
  "observe_resume cb r ob =
     (case r of
        Inl e \<Rightarrow> ob\<lparr>pc := ObserveFailed e\<rparr>
      | Inr evs \<Rightarrow>
          (if evs \<noteq> [] then
             (case invoke cb False Undefined evs (ob\<lparr>after := Some (ev_id (last evs))\<rparr>) of
                (None, ob1) \<Rightarrow> ob1\<lparr>pc := Sleeping\<rparr>
              | (Some error, ob1) \<Rightarrow>
                  (case invoke cb True error [] ob1 of
                     (None, ob2) \<Rightarrow> ob2\<lparr>pc := Sleeping\<rparr>
                   | (Some error2, ob2) \<Rightarrow> ob2\<lparr>pc := CallbackThrew error2\<rparr>))
           else ob\<lparr>pc := Sleeping\<rparr>))"

datatype ObserveAction =
    Unsubscribe
  | GetEventsSettles "Error + DbTaskEventRow list"
  | TimeoutElapses

definition observe_step :: "Callback \<Rightarrow> ObserveAction \<Rightarrow> Observer \<Rightarrow> Observer" where
  "observe_step cb act ob =
     (case act of
        Unsubscribe \<Rightarrow> unsubscribe ob
      | GetEventsSettles r \<Rightarrow>
          (case pc ob of
             GetEventsInFlight opts \<Rightarrow> observe_resume cb r ob
           | Sleeping \<Rightarrow> ob
           | Exited \<Rightarrow> ob
           | ObserveFailed e \<Rightarrow> ob
           | CallbackThrew v \<Rightarrow> ob)
      | TimeoutElapses \<Rightarrow>
          (case pc ob of
             GetEventsInFlight opts \<Rightarrow> ob
           | Sleeping \<Rightarrow> loop_head ob
           | Exited \<Rightarrow> ob
           | ObserveFailed e \<Rightarrow> ob
           | CallbackThrew v \<Rightarrow> ob))"

definition observe_run :: "Callback \<Rightarrow> ObserveAction list \<Rightarrow> Observer \<Rightarrow> Observer" where
  "observe_run cb acts ob = fold (observe_step cb) acts ob"

definition delivered :: "Observer \<Rightarrow> DbTaskEventRow list" where
  "delivered ob = concat (map inv_events (invocations ob))"

subsection \<open>A subscription with a storage\<close>

text \<open>
  The subscription of above, with the answer of \<^verbatim>\<open>getEvents\<close> computed by the storage from
  the events emitted so far.
\<close>

datatype FeedAction =
    Emit TaskStoreEmitOptions
  | StoreRunsGetEvents
  | Observe ObserveAction

definition is_answer :: "ObserveAction \<Rightarrow> bool" where
  "is_answer a = (case a of GetEventsSettles (Inr evs) \<Rightarrow> True | _ \<Rightarrow> False)"

definition feed_step :: "Callback \<Rightarrow> FeedAction \<Rightarrow> Store \<times> Observer \<Rightarrow> Store \<times> Observer" where
  "feed_step cb act s =
     (case act of
        Emit opts \<Rightarrow> (emit_store opts (fst s), snd s)
      | StoreRunsGetEvents \<Rightarrow>
          (case pc (snd s) of
             GetEventsInFlight opts \<Rightarrow>
               (fst s, observe_step cb (GetEventsSettles (Inr (getEvents_store opts (fst s)))) (snd s))
           | Sleeping \<Rightarrow> s
           | Exited \<Rightarrow> s
           | ObserveFailed e \<Rightarrow> s
           | CallbackThrew v \<Rightarrow> s)
      | Observe a \<Rightarrow> (if is_answer a then s else (fst s, observe_step cb a (snd s))))"

definition feed_run :: "Callback \<Rightarrow> FeedAction list \<Rightarrow> Store \<times> Observer \<Rightarrow> Store \<times> Observer" where
  "feed_run cb acts s = fold (feed_step cb) acts s"

text \<open>
  The sequence numbers of the events of task \<open>t\<close> are positive and increase: what a storage
  that numbers them with \<open>next_seq\<close> keeps.
\<close>

definition numbered :: "string \<Rightarrow> Store \<Rightarrow> bool" where
  "numbered t st =
     (sorted_wrt (<) (map ev_id (events_of t st)) \<and> list_all (\<lambda>e. 0 < ev_id e) (events_of t st))"

subsection \<open>Invariants of the schedules\<close>

text \<open>The agent's interval is not among the active timers: it was cleared, or never set.\<close>

definition no_timer :: "AgentSys \<Rightarrow> bool" where
  "no_timer s =
     (case heartbeatInterval (agent s) of
        None \<Rightarrow> True
      | Some h \<Rightarrow> h \<notin> set (intervals (loop s)))"

text \<open>Method call \<open>k\<close> of the agent was rejected with \<open>e\<close>.\<close>

definition op_rejected :: "nat \<Rightarrow> Error \<Rightarrow> AgentSys \<Rightarrow> bool" where
  "op_rejected k e s = (k < length (ops s) \<and> ops s ! k = OpRejected e)"

text \<open>Every resolved promise of the gate is older than the current one.\<close>

definition gate_ok :: "Broker \<Rightarrow> bool" where
  "gate_ok b = list_all (\<lambda>g. g < deferredDispatch b) (resolved b)"

text \<open>
  The call of \<^verbatim>\<open>claim\<close>, made when the gate was at promise \<open>d\<close>, has issued at most one
  \<^verbatim>\<open>claimTask\<close> more than the gate has been signalled since; while it waits on promise
  \<open>g\<close>, at most one more than the signals before \<open>g\<close> was installed.
\<close>

definition paced :: "nat \<Rightarrow> BrokerSys \<Rightarrow> bool" where
  "paced d s =
     (gate_ok (gate s) \<and> d \<le> deferredDispatch (gate s) \<and>
      (case claimer s of
         ClaimAwaitDispatch g \<Rightarrow> attempts s + d \<le> 1 + g \<and> g \<le> deferredDispatch (gate s)
       | _ \<Rightarrow> attempts s + d \<le> 1 + deferredDispatch (gate s)))"

text \<open>
  The answer the call of \<^verbatim>\<open>claim\<close> holds, and the agent it returned, come from an answer
  of \<^verbatim>\<open>claimTask\<close> in the schedule so far.
\<close>

definition sourced :: "BrokerAction list \<Rightarrow> BrokerSys \<Rightarrow> bool" where
  "sourced acts s =
     (case claimer s of
        ClaimTaskAnswered r \<Rightarrow> ClaimTaskSettles r \<in> set acts
      | ClaimResolved a \<Rightarrow>
          (\<exists>row. ClaimTaskSettles (Inr (Some row)) \<in> set acts \<and> state a = state_of_row row)
      | _ \<Rightarrow> True)"

text \<open>Call \<open>j\<close> of \<^verbatim>\<open>dispatch\<close> was rejected with \<open>e\<close>.\<close>

definition dispatch_rejected :: "nat \<Rightarrow> Error \<Rightarrow> BrokerSys \<Rightarrow> bool" where
  "dispatch_rejected j e s = (j < length (dispatchers s) \<and> dispatchers s ! j = DispatchRejected e)"

text \<open>
  The callback invocations a cancelled subscription can still make: those of the poll in
  flight (the batch, and the error of a throwing callback).
\<close>

definition budget :: "Observer \<Rightarrow> nat" where
  "budget ob = (case pc ob of GetEventsInFlight opts \<Rightarrow> 2 | _ \<Rightarrow> 0)"

abbreviation asc :: "DbTaskEventRow list \<Rightarrow> bool" where
  "asc \<equiv> sorted_wrt (\<lambda>a b. ev_id a < ev_id b)"

text \<open>
  What a subscription to task \<open>t\<close> has delivered is the task's events up to the cursor, the
  cursor is behind the next sequence number, and a poll in flight asks for the events after
  the cursor.
\<close>

definition tracking :: "string \<Rightarrow> Store \<Rightarrow> Observer \<Rightarrow> bool" where
  "tracking t st ob =
     (numbered t st \<and> obs_taskId ob = t \<and>
      (case after ob of
         None \<Rightarrow> False
       | Some c \<Rightarrow> 0 \<le> c \<and> c < next_seq t st \<and>
           delivered ob = filter (\<lambda>e. ev_id e \<le> c) (events_of t st)) \<and>
      (case pc ob of
         GetEventsInFlight opts \<Rightarrow> opts = \<lparr>get_taskId = t, get_after = after ob\<rparr>
       | _ \<Rightarrow> True))"

text \<open>
  An invocation made in the \<^verbatim>\<open>try\<close> block: no error is passed, the batch is not empty, and
  \<^verbatim>\<open>after\<close> was already the sequence number of the batch's last event.
\<close>

definition from_try :: "Invocation \<Rightarrow> bool" where
  "from_try i =
     (\<not> inv_catch i \<and> inv_error i = Undefined \<and> inv_events i \<noteq> [] \<and>
      inv_after i = Some (ev_id (last (inv_events i))))"

text \<open>
  Invocation \<open>j\<close> was made in the \<^verbatim>\<open>catch\<close> block after invocation \<open>i\<close> threw \<open>v\<close>: it is
  given \<open>v\<close> and no events, and \<^verbatim>\<open>after\<close> has not moved.
\<close>

definition from_catch :: "Invocation \<Rightarrow> JsValue \<Rightarrow> Invocation \<Rightarrow> bool" where
  "from_catch i v j =
     (inv_catch j \<and> inv_error j = v \<and> inv_events j = [] \<and> inv_after j = inv_after i)"

text \<open>
  The invocations of a subscription between two steps of its loop: invocations of the
  \<^verbatim>\<open>try\<close> block, each one that threw followed at once by the invocation of the \<^verbatim>\<open>catch\<close>
  block that is given what it threw.
\<close>

fun paired :: "Invocation list \<Rightarrow> bool" where
  "paired [] = True"
| "paired [i] = (from_try i \<and> inv_thrown i = None)"
| "paired (i # j # js) =
     (from_try i \<and>
      (case inv_thrown i of
         None \<Rightarrow> paired (j # js)
       | Some v \<Rightarrow> from_catch i v j \<and> paired js))"

subsection \<open>Concrete values\<close>

definition example_spec :: TaskSpec where
  "example_spec =
     \<lparr>steps = [\<lparr>step_id = ''fetch'', step_name = ''Fetch'', step_action = ''fetch:plain'',
                step_parameters = None\<rparr>]\<rparr>"

definition example_state :: TaskState where
  "example_state = \<lparr>spec = example_spec, taskId = ''T1'', runId = Some ''R1''\<rparr>"

definition unbound_state :: TaskState where
  "unbound_state = \<lparr>spec = example_spec, taskId = ''T1'', runId = None\<rparr>"

definition example_loop :: EventLoop where
  "example_loop = \<lparr>nextHandle = 0, intervals = []\<rparr>"

definition example_row :: DbTaskRow where
  "example_row =
     \<lparr>row_id = ''T1'', row_spec = example_spec, row_status = Processing,
      row_lastHeartbeat = None, row_retryCount = 0, row_createdAt = [],
      row_runId = Some ''R1''\<rparr>"

definition example_event :: "int \<Rightarrow> DbTaskEventRow" where
  "example_event n =
     \<lparr>ev_id = n, ev_runId = Some ''R1'', ev_taskId = ''T1'',
      ev_body = [(''message'', JString ''step done'')], ev_type = Log, ev_createdAt = []\<rparr>"

definition example_log :: TaskStoreEmitOptions where
  "example_log =
     \<lparr>emit_taskId = ''T1'', emit_runId = Some ''R1'',
      emit_body = [(''message'', JString ''step done'')], emit_type = Log\<rparr>"

definition example_options :: TaskStoreGetEventsOptions where
  "example_options = \<lparr>get_taskId = ''T1'', get_after = Some 0\<rparr>"

text \<open>
  Callbacks: one that always returns; one that always throws an error; one that throws an
  error when it is given events and returns when it is given none; one that throws
  \<^verbatim>\<open>undefined\<close> when it is given events; and one that calls \<^verbatim>\<open>unsubscribe\<close> and throws
  when it is given events.
\<close>

definition never_throws :: Callback where
  "never_throws h = \<lparr>thrown = None, unsubscribed = False\<rparr>"

definition always_throws :: Callback where
  "always_throws h = \<lparr>thrown = Some (ErrorValue (Error ''boom'')), unsubscribed = False\<rparr>"

definition throws_on_batch :: Callback where
  "throws_on_batch h =
     \<lparr>thrown = (if snd (last h) = [] then None else Some (ErrorValue (Error ''boom''))),
      unsubscribed = False\<rparr>"

definition throws_undefined_on_batch :: Callback where
  "throws_undefined_on_batch h =
     \<lparr>thrown = (if snd (last h) = [] then None else Some Undefined), unsubscribed = False\<rparr>"

definition unsubscribes_and_throws :: Callback where
  "unsubscribes_and_throws h =
     \<lparr>thrown = (if snd (last h) = [] then None else Some (ErrorValue (Error ''boom''))),
      unsubscribed = (snd (last h) \<noteq> [])\<rparr>"

text \<open>An agent whose \<^verbatim>\<open>complete('failed')\<close> awaits \<^verbatim>\<open>setStatus\<close>.\<close>

definition completing :: AgentSys where
  "completing = agent_run [CallComplete ResultFailed] (agent_init example_state example_loop)"

text \<open>An agent whose \<^verbatim>\<open>emitLog\<close> awaits \<^verbatim>\<open>emit\<close>.\<close>

definition logging :: AgentSys where
  "logging = agent_run [CallEmitLog ''step done''] (agent_init example_state example_loop)"

text \<open>
  A call of \<^verbatim>\<open>claim\<close> that finds nothing, waits, is woken by a dispatch and claims the row.
\<close>

definition claim_schedule :: "BrokerAction list" where
  "claim_schedule =
     [ClaimTaskSettles (Inr None), ClaimContinues, CallDispatch example_spec,
      CreateTaskSettles 0 (Inr ''T1''), DispatchContinues 0, ClaimContinues,
      ClaimTaskSettles (Inr (Some example_row)), ClaimContinues]"

text \<open>A broker whose \<^verbatim>\<open>claimTask\<close> and \<^verbatim>\<open>createTask\<close> have both been answered by a failure.\<close>

definition failing_broker :: BrokerSys where
  "failing_broker =
     broker_run
       [ClaimTaskSettles (Inl (Error ''storage is down'')), CallDispatch example_spec,
        CreateTaskSettles 0 (Inl (Error ''storage is down''))]
       (claim_called broker_new example_loop)"

text \<open>Two events are emitted, with one poll between them and one in flight after them.\<close>

definition feed_schedule :: "FeedAction list" where
  "feed_schedule =
     [Emit example_log, StoreRunsGetEvents, Observe TimeoutElapses, Emit example_log]"

section \<open>The agent\<close>

subsection \<open>Workspace name\<close>

text \<open>
  C9. For an agent with task id \<open>T\<close> and run id \<open>R\<close>, \<^verbatim>\<open>getWorkspaceName()\<close> is the task id,
  an underscore and the run id. The method is a function of the agent alone: it issues no
  storage call and changes nothing.
\<close>

theorem getWorkspaceName_is_taskId_runId:
  "getWorkspaceName \<lparr>state = \<lparr>spec = sp, taskId = T, runId = Some R\<rparr>, heartbeatInterval = hb\<rparr>
     = T @ ''_'' @ R"
  by (simp add: getWorkspaceName_def template_def)

subsection \<open>Heartbeat\<close>

text \<open>
  C8. When the interval of an agent fires and the agent's state has no run id (it is
  \<^verbatim>\<open>undefined\<close> or empty), the closure throws \<^verbatim>\<open>Error('no run id provided')\<close> and issues no
  storage call; with a run id, the firing issues one heartbeat call for that run id.
\<close>

theorem heartbeat_throws_without_run_id:
  "h \<in> set (intervals (loop s)) \<Longrightarrow> heartbeatInterval (agent s) = Some h \<Longrightarrow>
     agent_step (TimerFires h) s =
       (if falsy (runId (state (agent s)))
        then s\<lparr>uncaught := uncaught s @ [Error ''no run id provided'']\<rparr>
        else s\<lparr>calls := calls s @ [HeartbeatCall (runId (state (agent s)))]\<rparr>)"
  by (simp add: agent_step_def timer_fires_def heartbeat_tick_def)

text \<open>
  The theorem of C8 at an agent created without a run id, and at one created with run id
  \<open>R1\<close>.
\<close>

theorem heartbeat_throws_without_run_id_witness:
  "agent_step (TimerFires 0) (agent_init unbound_state example_loop) =
     (agent_init unbound_state example_loop)\<lparr>uncaught := [Error ''no run id provided'']\<rparr>
   \<and> agent_step (TimerFires 0) (agent_init example_state example_loop) =
     (agent_init example_state example_loop)\<lparr>calls := [HeartbeatCall (Some ''R1'')]\<rparr>"
proof -
  have u: "0 \<in> set (intervals (loop (agent_init unbound_state example_loop)))"
    "heartbeatInterval (agent (agent_init unbound_state example_loop)) = Some 0"
    "falsy (runId (state (agent (agent_init unbound_state example_loop))))"
    "uncaught (agent_init unbound_state example_loop) = []"
    by code_simp+
  have b: "0 \<in> set (intervals (loop (agent_init example_state example_loop)))"
    "heartbeatInterval (agent (agent_init example_state example_loop)) = Some 0"
    "\<not> falsy (runId (state (agent (agent_init example_state example_loop))))"
    "calls (agent_init example_state example_loop) = []"
    "runId (state (agent (agent_init example_state example_loop))) = Some ''R1''"
    by code_simp+
  from heartbeat_throws_without_run_id [OF u(1) u(2)]
    heartbeat_throws_without_run_id [OF b(1) b(2)]
  show ?thesis using u(3,4) b(3,4,5) by simp
qed

subsection \<open>Completion\<close>

lemma agent_step_agent: "agent (agent_step a s) = agent s"
  by (cases a)
     (auto simp: agent_step_def timer_fires_def complete_resume_def emitLog_resume_def
           split: sum.splits OpPc.splits)

lemma agent_step_intervals:
  "set (intervals (loop (agent_step a s))) \<subseteq> set (intervals (loop s))"
  by (cases a)
     (auto simp: agent_step_def timer_fires_def complete_resume_def emitLog_resume_def
                 clearInterval_ts_def
           split: sum.splits OpPc.splits option.splits)

lemma no_timer_step: "no_timer s \<Longrightarrow> no_timer (agent_step a s)"
  using agent_step_intervals [of a s]
  by (auto simp: no_timer_def agent_step_agent split: option.splits)

lemma no_timer_heartbeats: "no_timer s \<Longrightarrow> heartbeats (agent_step a s) = heartbeats s"
  by (cases a)
     (auto simp: agent_step_def timer_fires_def complete_resume_def emitLog_resume_def
                 no_timer_def heartbeats_def is_heartbeat_def emitLog_call_def
                 complete_setStatus_def complete_emit_def
           split: sum.splits OpPc.splits option.splits)

lemma no_timer_run: "no_timer s \<Longrightarrow> heartbeats (agent_run acts s) = heartbeats s"
proof (induction acts arbitrary: s)
  case Nil
  then show ?case by (simp add: agent_run_def)
next
  case (Cons a acts)
  have "heartbeats (agent_run acts (agent_step a s)) = heartbeats (agent_step a s)"
    using Cons.IH [OF no_timer_step [OF Cons.prems]] .
  then show ?case
    using no_timer_heartbeats [OF Cons.prems, of a] by (simp add: agent_run_def)
qed

lemma complete_resume_no_timer: "no_timer (complete_resume k result (Inr u) s)"
  by (auto simp: no_timer_def complete_resume_def clearInterval_ts_def split: option.splits)

text \<open>
  The claim as stated fails: \<^verbatim>\<open>complete\<close> clears the interval only after
  \<^verbatim>\<open>await this.storage.setStatus(...)\<close>. Here \<^verbatim>\<open>complete('completed')\<close> has been called and
  awaits \<^verbatim>\<open>setStatus\<close>; the interval fires, and a heartbeat is written after the call of
  \<^verbatim>\<open>complete\<close>.
\<close>

theorem heartbeat_written_while_complete_awaits:
  "calls (agent_run [CallComplete ResultCompleted, TimerFires 0]
            (agent_init example_state example_loop))
   = [SetStatusCall (Some ''R1'') Completed, HeartbeatCall (Some ''R1'')]"
  by code_simp

text \<open>
  C5 (amended). \<^verbatim>\<open>complete(result)\<close> calls \<^verbatim>\<open>setStatus\<close> for the agent's run with status
  \<^verbatim>\<open>failed\<close> when the result is \<^verbatim>\<open>'failed'\<close> and \<^verbatim>\<open>completed\<close> otherwise, and awaits it. When
  that call is fulfilled, \<^verbatim>\<open>complete\<close> issues the \<^verbatim>\<open>emit\<close> of a \<^verbatim>\<open>completion\<close> event for the
  task and run, clears the agent's interval and resolves; from then on no heartbeat is
  written, whatever happens next. (Between the call of \<^verbatim>\<open>complete\<close> and the answer of
  \<^verbatim>\<open>setStatus\<close> the interval can still fire.)
\<close>

theorem complete_sets_status_emits_completion_and_stops_heartbeat:
  "agent_step (CallComplete result) s =
     s\<lparr>calls := calls s @
          [SetStatusCall (runId (state (agent s)))
             (if result = ResultFailed then Failed else Completed)],
       ops := ops s @ [CompleteAwaitSetStatus result]\<rparr>
   \<and> (k < length (ops s) \<and> ops s ! k = CompleteAwaitSetStatus result \<longrightarrow>
        calls (agent_step (AwaitedSettles k (Inr ())) s) =
          calls s @
            [EmitCall \<lparr>emit_taskId = taskId (state (agent s)),
                       emit_runId = runId (state (agent s)),
                       emit_body = [(''message'',
                          JString (''Run completed with status: '' @ result_string result))],
                       emit_type = Completion\<rparr>]
        \<and> ops (agent_step (AwaitedSettles k (Inr ())) s) ! k = OpResolved
        \<and> (\<forall>h. heartbeatInterval (agent s) = Some h \<longrightarrow>
               h \<notin> set (intervals (loop (agent_step (AwaitedSettles k (Inr ())) s))))
        \<and> (\<forall>acts. heartbeats (agent_run acts (agent_step (AwaitedSettles k (Inr ())) s)) =
               heartbeats s))"
proof (intro conjI impI)
  show "agent_step (CallComplete result) s =
     s\<lparr>calls := calls s @
          [SetStatusCall (runId (state (agent s)))
             (if result = ResultFailed then Failed else Completed)],
       ops := ops s @ [CompleteAwaitSetStatus result]\<rparr>"
    by (simp add: agent_step_def complete_setStatus_def)
next
  assume a: "k < length (ops s) \<and> ops s ! k = CompleteAwaitSetStatus result"
  then have st: "agent_step (AwaitedSettles k (Inr ())) s = complete_resume k result (Inr ()) s"
    by (simp add: agent_step_def)
  show "calls (agent_step (AwaitedSettles k (Inr ())) s) =
          calls s @
            [EmitCall \<lparr>emit_taskId = taskId (state (agent s)),
                       emit_runId = runId (state (agent s)),
                       emit_body = [(''message'',
                          JString (''Run completed with status: '' @ result_string result))],
                       emit_type = Completion\<rparr>]"
    by (simp add: st complete_resume_def complete_emit_def)
  show "ops (agent_step (AwaitedSettles k (Inr ())) s) ! k = OpResolved"
    using a by (simp add: st complete_resume_def)
  show "\<forall>h. heartbeatInterval (agent s) = Some h \<longrightarrow>
               h \<notin> set (intervals (loop (agent_step (AwaitedSettles k (Inr ())) s)))"
    by (auto simp: st complete_resume_def clearInterval_ts_def)
  have "heartbeats (complete_resume k result (Inr ()) s) = heartbeats s"
    by (simp add: complete_resume_def heartbeats_def is_heartbeat_def complete_emit_def)
  then show "\<forall>acts. heartbeats (agent_run acts (agent_step (AwaitedSettles k (Inr ())) s)) =
               heartbeats s"
    using no_timer_run [OF complete_resume_no_timer, of _ k result "()" s] by (simp add: st)
qed

text \<open>
  The theorem of C5 at an agent whose \<^verbatim>\<open>complete('failed')\<close> awaits \<^verbatim>\<open>setStatus\<close>: the status
  asked for is \<^verbatim>\<open>failed\<close>, the completion event follows, and no schedule writes a heartbeat
  afterwards.
\<close>

theorem complete_sets_status_emits_completion_and_stops_heartbeat_witness:
  "0 < length (ops completing) \<and> ops completing ! 0 = CompleteAwaitSetStatus ResultFailed
   \<and> calls completing = [SetStatusCall (Some ''R1'') Failed]
   \<and> calls (agent_step (AwaitedSettles 0 (Inr ())) completing) =
       calls completing @
         [EmitCall \<lparr>emit_taskId = ''T1'', emit_runId = Some ''R1'',
                    emit_body = [(''message'', JString ''Run completed with status: failed'')],
                    emit_type = Completion\<rparr>]
   \<and> (\<forall>acts. heartbeats (agent_run acts (agent_step (AwaitedSettles 0 (Inr ())) completing)) = [])"
proof -
  have h: "0 < length (ops completing) \<and> ops completing ! 0 = CompleteAwaitSetStatus ResultFailed"
    by code_simp
  have c: "calls completing = [SetStatusCall (Some ''R1'') Failed]" by code_simp
  have a: "taskId (state (agent completing)) = ''T1''"
    "runId (state (agent completing)) = Some ''R1''" "heartbeats completing = []"
    "result_string ResultFailed = ''failed''"
    by code_simp+
  from complete_sets_status_emits_completion_and_stops_heartbeat [of ResultFailed completing 0] h
  have "calls (agent_step (AwaitedSettles 0 (Inr ())) completing) =
          calls completing @
            [EmitCall \<lparr>emit_taskId = taskId (state (agent completing)),
                       emit_runId = runId (state (agent completing)),
                       emit_body = [(''message'',
                          JString (''Run completed with status: '' @ result_string ResultFailed))],
                       emit_type = Completion\<rparr>]"
    and "\<forall>acts. heartbeats (agent_run acts (agent_step (AwaitedSettles 0 (Inr ())) completing)) =
               heartbeats completing"
    by blast+
  then show ?thesis using h c a by simp
qed

lemma op_rejected_step: "op_rejected k e s \<Longrightarrow> op_rejected k e (agent_step a s)"
proof (cases a)
  case (AwaitedSettles i r)
  assume "op_rejected k e s"
  then show ?thesis using AwaitedSettles
    by (cases "i = k")
       (auto simp: agent_step_def op_rejected_def emitLog_resume_def complete_resume_def
             split: OpPc.splits sum.splits)
qed (auto simp: agent_step_def op_rejected_def timer_fires_def nth_append split: sum.splits)

lemma op_rejected_run: "op_rejected k e s \<Longrightarrow> op_rejected k e (agent_run acts s)"
  by (induction acts arbitrary: s) (simp_all add: agent_run_def op_rejected_step)

section \<open>The broker: claim and dispatch\<close>

subsection \<open>The pace of claim\<close>

lemma gate_ok_signal: "gate_ok b \<Longrightarrow> gate_ok (signalDispatch b)"
  by (auto simp: gate_ok_def signalDispatch_def list_all_iff)

lemma gate_ok_resolved: "gate_ok b \<Longrightarrow> g \<in> set (resolved b) \<Longrightarrow> g < deferredDispatch b"
  by (auto simp: gate_ok_def list_all_iff)

lemma paced_claim_continue: "paced d s \<Longrightarrow> paced d (claim_continue (claimer s) s)"
proof (induction "claimer s" s rule: claim_continue.induct)
  case (2 pendingTask s)
  then show ?case
    by (auto simp: paced_def attempts_def split: prod.splits dest: sym)
next
  case (4 g s)
  from 4(1) [symmetric] 4(2) show ?case
    by (auto simp: paced_def attempts_def is_claimTask_def dest: gate_ok_resolved)
qed (auto simp: paced_def attempts_def waitForDispatch_def dest: sym)

lemma paced_dispatch_continue: "paced d s \<Longrightarrow> paced d (dispatch_continue j p s)"
  by (cases "(j, p, s)" rule: dispatch_continue.cases)
     (auto simp: paced_def attempts_def gate_ok_signal signalDispatch_def gate_ok_def list_all_iff
           split: ClaimPc.splits)

lemma paced_step: "paced d s \<Longrightarrow> paced d (broker_step a s)"
proof (cases a)
  case (ClaimTaskSettles r)
  assume "paced d s"
  then show ?thesis using ClaimTaskSettles
    by (auto simp: broker_step_def paced_def attempts_def)
next
  case ClaimContinues
  assume "paced d s"
  then show ?thesis using ClaimContinues paced_claim_continue
    by (simp add: broker_step_def)
next
  case (CallDispatch sp)
  assume "paced d s"
  then show ?thesis using CallDispatch
    by (auto simp: broker_step_def paced_def attempts_def is_claimTask_def split: ClaimPc.splits)
next
  case (CreateTaskSettles j r)
  assume "paced d s"
  then show ?thesis using CreateTaskSettles
    by (auto simp: broker_step_def paced_def attempts_def split: ClaimPc.splits DispatchPc.splits)
next
  case (DispatchContinues j)
  assume "paced d s"
  then show ?thesis using DispatchContinues paced_dispatch_continue
    by (simp add: broker_step_def)
qed

lemma paced_run: "paced d s \<Longrightarrow> paced d (broker_run acts s)"
  by (induction acts arbitrary: s) (simp_all add: broker_run_def paced_step)

lemma paced_called: "gate_ok b \<Longrightarrow> paced (deferredDispatch b) (claim_called b l)"
  by (simp add: paced_def claim_called_def attempts_def is_claimTask_def)

lemma paced_bound: "paced d s \<Longrightarrow> attempts s + d \<le> 1 + deferredDispatch (gate s)"
  by (auto simp: paced_def split: ClaimPc.splits)

subsection \<open>Where the agent of claim comes from\<close>

lemma claimer_dispatch_continue: "claimer (dispatch_continue j p s) = claimer s"
  by (cases "(j, p, s)" rule: dispatch_continue.cases) auto

lemma issued_dispatch_continue: "issued (dispatch_continue j p s) = issued s"
  by (cases "(j, p, s)" rule: dispatch_continue.cases) auto

lemma dispatchers_claim_continue: "dispatchers (claim_continue p s) = dispatchers s"
  by (cases "(p, s)" rule: claim_continue.cases) (auto split: prod.splits)

lemma sourced_claim_continue:
  "sourced acts s \<Longrightarrow> sourced (acts @ [ClaimContinues]) (claim_continue (claimer s) s)"
proof (induction "claimer s" s rule: claim_continue.induct)
  case (2 pendingTask s)
  from 2(1) [symmetric] 2(2) show ?case
    by (auto simp: sourced_def state_of_row_def TaskAgent_create_def TaskAgent_start_def
          setInterval_ts_def)
qed (auto simp: sourced_def dest: sym split: ClaimPc.splits)

lemma sourced_step: "sourced acts s \<Longrightarrow> sourced (acts @ [a]) (broker_step a s)"
proof (cases a)
  case ClaimContinues
  assume "sourced acts s"
  then show ?thesis using ClaimContinues sourced_claim_continue by (simp add: broker_step_def)
next
  case (ClaimTaskSettles r)
  assume "sourced acts s"
  then show ?thesis using ClaimTaskSettles
    by (auto simp: broker_step_def sourced_def split: ClaimPc.splits)
next
  case (CallDispatch sp)
  assume "sourced acts s"
  then show ?thesis using CallDispatch
    by (auto simp: broker_step_def sourced_def split: ClaimPc.splits)
next
  case (CreateTaskSettles j r)
  assume "sourced acts s"
  then show ?thesis using CreateTaskSettles
    by (auto simp: broker_step_def sourced_def split: ClaimPc.splits DispatchPc.splits)
next
  case (DispatchContinues j)
  assume "sourced acts s"
  then show ?thesis using DispatchContinues
    by (auto simp: broker_step_def sourced_def claimer_dispatch_continue split: ClaimPc.splits)
qed

lemma sourced_run: "sourced [] s \<Longrightarrow> sourced acts (broker_run acts s)"
proof (induction acts rule: rev_induct)
  case Nil
  then show ?case by (simp add: broker_run_def)
next
  case (snoc a acts)
  then show ?case using sourced_step [of acts "broker_run acts s" a]
    by (simp add: broker_run_def)
qed

lemma sourced_called: "sourced [] (claim_called b l)"
  by (simp add: sourced_def claim_called_def)

text \<open>
  C7. In every schedule of a call of \<^verbatim>\<open>claim()\<close>: when the call has returned, it returned
  an agent whose state (spec, task id, run id) is that of a row that \<^verbatim>\<open>claimTask\<close> answered
  to it, so it never returns without a task; it has issued at most one \<^verbatim>\<open>claimTask\<close> more
  than the gate has been signalled since the call, so it never spins. Continuing from an
  answered row returns the agent made of that row, with its heartbeat started; continuing
  from an answer without a row awaits the current promise of the gate and issues nothing;
  continuing from the wait issues the next \<^verbatim>\<open>claimTask\<close> if that promise has been resolved
  and otherwise stays suspended.
\<close>

theorem claim_returns_agent_of_claimed_row_or_waits:
  assumes "gate_ok b" and "s = broker_run acts (claim_called b l)"
  shows "(\<forall>a. claimer s = ClaimResolved a \<longrightarrow>
            (\<exists>row. ClaimTaskSettles (Inr (Some row)) \<in> set acts \<and> state a = state_of_row row))
       \<and> attempts s + deferredDispatch b \<le> 1 + deferredDispatch (gate s)
       \<and> (\<forall>row. claimer s = ClaimTaskAnswered (Inr (Some row)) \<longrightarrow>
            claimer (broker_step ClaimContinues s) =
              ClaimResolved \<lparr>state = state_of_row row,
                             heartbeatInterval = Some (nextHandle (timers s))\<rparr>)
       \<and> (claimer s = ClaimTaskAnswered (Inr None) \<longrightarrow>
            broker_step ClaimContinues s =
              s\<lparr>claimer := ClaimAwaitDispatch (deferredDispatch (gate s))\<rparr>)
       \<and> (\<forall>g. claimer s = ClaimAwaitDispatch g \<longrightarrow>
            broker_step ClaimContinues s =
              (if g \<in> set (resolved (gate s))
               then s\<lparr>claimer := ClaimTaskInFlight, issued := issued s @ [ClaimTaskCall]\<rparr>
               else s))"
proof (intro conjI)
  show "\<forall>a. claimer s = ClaimResolved a \<longrightarrow>
            (\<exists>row. ClaimTaskSettles (Inr (Some row)) \<in> set acts \<and> state a = state_of_row row)"
    using sourced_run [OF sourced_called, of acts b l] assms(2)
    by (auto simp: sourced_def)
  show "attempts s + deferredDispatch b \<le> 1 + deferredDispatch (gate s)"
    using paced_bound [OF paced_run [OF paced_called [OF assms(1)]], of acts l] assms(2) by simp
  show "\<forall>row. claimer s = ClaimTaskAnswered (Inr (Some row)) \<longrightarrow>
            claimer (broker_step ClaimContinues s) =
              ClaimResolved \<lparr>state = state_of_row row,
                             heartbeatInterval = Some (nextHandle (timers s))\<rparr>"
    by (simp add: broker_step_def state_of_row_def TaskAgent_create_def TaskAgent_start_def
          setInterval_ts_def)
  show "claimer s = ClaimTaskAnswered (Inr None) \<longrightarrow>
            broker_step ClaimContinues s =
              s\<lparr>claimer := ClaimAwaitDispatch (deferredDispatch (gate s))\<rparr>"
    by (simp add: broker_step_def waitForDispatch_def)
  show "\<forall>g. claimer s = ClaimAwaitDispatch g \<longrightarrow>
            broker_step ClaimContinues s =
              (if g \<in> set (resolved (gate s))
               then s\<lparr>claimer := ClaimTaskInFlight, issued := issued s @ [ClaimTaskCall]\<rparr>
               else s)"
    by (simp add: broker_step_def)
qed

text \<open>
  The theorem of C7 on a fresh broker, at two schedules: in the first the call finds no
  task, waits, is woken by a dispatch, claims the row of \<open>T1\<close> and returns its agent after
  two attempts and one signal; in the second it has found no task and no dispatch has come,
  and continuing leaves it suspended.
\<close>

theorem claim_returns_agent_of_claimed_row_or_waits_witness:
  "gate_ok broker_new
   \<and> claimer (broker_run claim_schedule (claim_called broker_new example_loop)) =
       ClaimResolved \<lparr>state = example_state, heartbeatInterval = Some 0\<rparr>
   \<and> (\<exists>row. ClaimTaskSettles (Inr (Some row)) \<in> set claim_schedule \<and>
             example_state = state_of_row row)
   \<and> attempts (broker_run claim_schedule (claim_called broker_new example_loop)) = 2
   \<and> deferredDispatch (gate (broker_run claim_schedule (claim_called broker_new example_loop))) = 1
   \<and> broker_step ClaimContinues
       (broker_run [ClaimTaskSettles (Inr None), ClaimContinues]
          (claim_called broker_new example_loop)) =
     broker_run [ClaimTaskSettles (Inr None), ClaimContinues]
          (claim_called broker_new example_loop)"
proof -
  let ?s = "broker_run claim_schedule (claim_called broker_new example_loop)"
  let ?w = "broker_run [ClaimTaskSettles (Inr None), ClaimContinues]
          (claim_called broker_new example_loop)"
  have g: "gate_ok broker_new" by code_simp
  have e: "claimer ?s = ClaimResolved \<lparr>state = example_state, heartbeatInterval = Some 0\<rparr>"
    "attempts ?s = 2" "deferredDispatch (gate ?s) = 1" by code_simp+
  have w: "claimer ?w = ClaimAwaitDispatch 0" "0 \<notin> set (resolved (gate ?w))" by code_simp+
  from claim_returns_agent_of_claimed_row_or_waits [OF g refl, of claim_schedule example_loop] e(1)
  have 1: "\<exists>row. ClaimTaskSettles (Inr (Some row)) \<in> set claim_schedule \<and>
             example_state = state_of_row row"
    by auto
  from claim_returns_agent_of_claimed_row_or_waits
    [OF g refl, of "[ClaimTaskSettles (Inr None), ClaimContinues]" example_loop] w
  have 2: "broker_step ClaimContinues ?w = ?w" by auto
  show ?thesis using g e 1 2 by simp
qed

subsection \<open>A dispatch between the answer of the storage and the wait\<close>

text \<open>
  C1. The claim is that no interleaving of \<^verbatim>\<open>dispatch\<close> and \<^verbatim>\<open>claim\<close> loses a dispatch: the
  promise a waiter awaits is the one the dispatch resolves. The code evaluates
  \<^verbatim>\<open>this.deferredDispatch.promise\<close> only after \<^verbatim>\<open>claimTask\<close> has answered. In the schedule
  below, on an empty storage, the storage answers \<^verbatim>\<open>claimTask\<close> with no row; then
  \<^verbatim>\<open>dispatch(spec)\<close> is called, the storage creates task \<open>T1\<close>, and \<^verbatim>\<open>dispatch\<close> continues
  with \<^verbatim>\<open>signalDispatch\<close>, which resolves promise 0 and installs promise 1; only then does
  \<^verbatim>\<open>claim\<close> continue with the empty answer. It awaits promise 1, which nothing has resolved,
  while \<open>T1\<close> is open in the storage and \<^verbatim>\<open>dispatch\<close> has returned.
\<close>

theorem lost_dispatch_leaves_claim_waiting:
  "system_run
     [StoreRunsClaimTask ''R1'',
      Continue (CallDispatch example_spec),
      StoreRunsCreateTask 0 ''T1'',
      Continue (DispatchContinues 0),
      Continue ClaimContinues] system_claiming
   = \<lparr>store = \<lparr>tasks = [\<lparr>row_id = ''T1'', row_spec = example_spec, row_status = Open,
                         row_lastHeartbeat = None, row_retryCount = 0, row_createdAt = [],
                         row_runId = None\<rparr>],
                events = [], clock = []\<rparr>,
      brokerSys = \<lparr>gate = \<lparr>deferredDispatch = 1, resolved = [0]\<rparr>,
                   claimer = ClaimAwaitDispatch 1,
                   dispatchers = [DispatchResolved \<lparr>res_taskId = ''T1''\<rparr>],
                   timers = \<lparr>nextHandle = 0, intervals = []\<rparr>,
                   issued = [ClaimTaskCall, CreateTaskCall example_spec]\<rparr>\<rparr>"
  by code_simp

text \<open>
  In that state nothing is left to run: every action other than a new call of \<^verbatim>\<open>dispatch\<close>
  leaves it as it is, so the open task is claimed only if somebody dispatches again.
\<close>

lemma lost_dispatch_is_final:
  "system_step a
     (system_run
        [StoreRunsClaimTask ''R1'', Continue (CallDispatch example_spec),
         StoreRunsCreateTask 0 ''T1'', Continue (DispatchContinues 0),
         Continue ClaimContinues] system_claiming)
   = system_run
        [StoreRunsClaimTask ''R1'', Continue (CallDispatch example_spec),
         StoreRunsCreateTask 0 ''T1'', Continue (DispatchContinues 0),
         Continue ClaimContinues] system_claiming
   \<or> (\<exists>sp. a = Continue (CallDispatch sp))"
proof -
  let ?s = "system_run
        [StoreRunsClaimTask ''R1'', Continue (CallDispatch example_spec),
         StoreRunsCreateTask 0 ''T1'', Continue (DispatchContinues 0),
         Continue ClaimContinues] system_claiming"
  have c: "claimer (brokerSys ?s) = ClaimAwaitDispatch 1"
    "resolved (gate (brokerSys ?s)) = [0]"
    "dispatchers (brokerSys ?s) = [DispatchResolved \<lparr>res_taskId = ''T1''\<rparr>]"
    by code_simp+
  show ?thesis
  proof (cases a)
    case (StoreRunsClaimTask rid)
    then show ?thesis using c by (simp add: system_step_def)
  next
    case (StoreRunsCreateTask j tid)
    then show ?thesis using c by (simp add: system_step_def)
  next
    case (Continue b)
    then show ?thesis using c
      by (cases b) (auto simp: system_step_def is_settle_def broker_step_def)
  qed
qed

text \<open>
  The same calls with the two continuations in the other order: \<^verbatim>\<open>claim\<close> awaits promise 0
  before \<^verbatim>\<open>dispatch\<close> resolves it, is woken, and claims \<open>T1\<close>.
\<close>

lemma dispatch_after_the_wait_wakes_claim:
  "claimer (brokerSys (system_run
        [StoreRunsClaimTask ''R1'', Continue (CallDispatch example_spec),
         StoreRunsCreateTask 0 ''T1'', Continue ClaimContinues,
         Continue (DispatchContinues 0), Continue ClaimContinues,
         StoreRunsClaimTask ''R2'', Continue ClaimContinues] system_claiming))
   = ClaimResolved \<lparr>state = \<lparr>spec = example_spec, taskId = ''T1'', runId = Some ''R2''\<rparr>,
                    heartbeatInterval = Some 0\<rparr>"
  by code_simp

subsection \<open>Failures of the storage\<close>

lemma claim_rejected_step:
  "claimer s = ClaimRejected e \<Longrightarrow>
     claimer (broker_step a s) = ClaimRejected e \<and> attempts (broker_step a s) = attempts s"
  by (cases a)
     (auto simp: broker_step_def attempts_def is_claimTask_def claimer_dispatch_continue
                 issued_dispatch_continue
           split: DispatchPc.splits)

lemma claim_rejected_run:
  "claimer s = ClaimRejected e \<Longrightarrow>
     claimer (broker_run acts s) = ClaimRejected e \<and> attempts (broker_run acts s) = attempts s"
proof (induction acts arbitrary: s)
  case Nil
  then show ?case by (simp add: broker_run_def)
next
  case (Cons a acts)
  from claim_rejected_step [OF Cons.prems, of a] Cons.IH [of "broker_step a s"]
  show ?case by (simp add: broker_run_def)
qed

lemma dispatch_rejected_continue:
  "dispatch_rejected j e s \<Longrightarrow> i < length (dispatchers s) \<Longrightarrow>
     dispatch_rejected j e (dispatch_continue i (dispatchers s ! i) s)"
proof (cases "i = j")
  case True
  assume "dispatch_rejected j e s"
  then show ?thesis using True by (simp add: dispatch_rejected_def)
next
  case False
  assume "dispatch_rejected j e s"
  then show ?thesis using False
    by (cases "(i, dispatchers s ! i, s)" rule: dispatch_continue.cases)
       (auto simp: dispatch_rejected_def)
qed

lemma dispatch_rejected_step:
  "dispatch_rejected j e s \<Longrightarrow> dispatch_rejected j e (broker_step a s)"
proof (cases a)
  case (DispatchContinues i)
  assume "dispatch_rejected j e s"
  then show ?thesis using DispatchContinues dispatch_rejected_continue [of j e s i]
    by (simp add: broker_step_def)
next
  case (CreateTaskSettles i r)
  assume "dispatch_rejected j e s"
  then show ?thesis using CreateTaskSettles
    by (cases "i = j") (auto simp: broker_step_def dispatch_rejected_def split: DispatchPc.splits)
next
  case ClaimContinues
  assume "dispatch_rejected j e s"
  then show ?thesis using ClaimContinues
    by (simp add: broker_step_def dispatch_rejected_def dispatchers_claim_continue)
next
  case (ClaimTaskSettles r)
  assume "dispatch_rejected j e s"
  then show ?thesis using ClaimTaskSettles
    by (simp add: broker_step_def dispatch_rejected_def)
next
  case (CallDispatch sp)
  assume "dispatch_rejected j e s"
  then show ?thesis using CallDispatch
    by (simp add: broker_step_def dispatch_rejected_def nth_append)
qed

lemma dispatch_rejected_run:
  "dispatch_rejected j e s \<Longrightarrow> dispatch_rejected j e (broker_run acts s)"
  by (induction acts arbitrary: s) (simp_all add: broker_run_def dispatch_rejected_step)

text \<open>
  The claim as stated fails for the heartbeat: the closure of the interval calls
  \<^verbatim>\<open>this.storage.heartbeat(...)\<close> and drops its promise. Here the interval fires, the
  heartbeat call is issued and the storage rejects it: no method call of the agent exists
  that could receive the error, nothing was thrown, and the rejection is left unhandled.
\<close>

theorem heartbeat_failure_reaches_no_caller:
  "agent_run [TimerFires 0, UnawaitedRejects (Error ''storage is down'')]
     (agent_init example_state example_loop)
   = \<lparr>agent = \<lparr>state = example_state, heartbeatInterval = Some 0\<rparr>,
      loop = \<lparr>nextHandle = Suc 0, intervals = [0]\<rparr>,
      calls = [HeartbeatCall (Some ''R1'')], ops = [], uncaught = [],
      unhandled = [Error ''storage is down'']\<rparr>"
  by code_simp

text \<open>
  C6 (amended). A failure of the storage call that an operation awaits rejects that
  operation with the same error, and the operation is over: when \<^verbatim>\<open>claimTask\<close> fails,
  \<^verbatim>\<open>claim\<close> is rejected, stays rejected and issues no further \<^verbatim>\<open>claimTask\<close>; when
  \<^verbatim>\<open>createTask\<close> fails, \<^verbatim>\<open>dispatch\<close> is rejected without signalling the gate and stays
  rejected; when the \<^verbatim>\<open>emit\<close> of \<^verbatim>\<open>emitLog\<close> or the \<^verbatim>\<open>setStatus\<close> of \<^verbatim>\<open>complete\<close> fails, that
  method call is rejected, issues nothing more and stays rejected. The failure of a call
  that is not awaited (the heartbeat write) rejects no operation: it is an unhandled
  rejection, and nothing is issued again because of it.
\<close>

theorem storage_failure_rejects_the_awaiting_call:
  "(claimer s = ClaimTaskAnswered (Inl e) \<longrightarrow>
      broker_step ClaimContinues s = s\<lparr>claimer := ClaimRejected e\<rparr> \<and>
      (\<forall>acts. claimer (broker_run (ClaimContinues # acts) s) = ClaimRejected e \<and>
              attempts (broker_run (ClaimContinues # acts) s) = attempts s))
   \<and> (j < length (dispatchers s) \<and> dispatchers s ! j = CreateTaskAnswered (Inl e) \<longrightarrow>
        broker_step (DispatchContinues j) s =
          s\<lparr>dispatchers := (dispatchers s)[j := DispatchRejected e]\<rparr> \<and>
        (\<forall>acts. dispatchers (broker_run (DispatchContinues j # acts) s) ! j = DispatchRejected e))
   \<and> (k < length (ops a) \<and>
        (ops a ! k = EmitLogAwaitEmit \<or> ops a ! k = CompleteAwaitSetStatus result) \<longrightarrow>
        agent_step (AwaitedSettles k (Inl e)) a = a\<lparr>ops := (ops a)[k := OpRejected e]\<rparr> \<and>
        (\<forall>acts. ops (agent_run (AwaitedSettles k (Inl e) # acts) a) ! k = OpRejected e))
   \<and> agent_step (UnawaitedRejects e) a = a\<lparr>unhandled := unhandled a @ [e]\<rparr>"
proof (intro conjI impI)
  assume c: "claimer s = ClaimTaskAnswered (Inl e)"
  then show st: "broker_step ClaimContinues s = s\<lparr>claimer := ClaimRejected e\<rparr>"
    by (simp add: broker_step_def)
  have "claimer (s\<lparr>claimer := ClaimRejected e\<rparr>) = ClaimRejected e" by simp
  from claim_rejected_run [OF this]
  show "\<forall>acts. claimer (broker_run (ClaimContinues # acts) s) = ClaimRejected e \<and>
              attempts (broker_run (ClaimContinues # acts) s) = attempts s"
    using st by (simp add: broker_run_def attempts_def)
next
  assume d: "j < length (dispatchers s) \<and> dispatchers s ! j = CreateTaskAnswered (Inl e)"
  then show st: "broker_step (DispatchContinues j) s =
          s\<lparr>dispatchers := (dispatchers s)[j := DispatchRejected e]\<rparr>"
    by (simp add: broker_step_def)
  have "dispatch_rejected j e (s\<lparr>dispatchers := (dispatchers s)[j := DispatchRejected e]\<rparr>)"
    using d by (simp add: dispatch_rejected_def)
  from dispatch_rejected_run [OF this]
  show "\<forall>acts. dispatchers (broker_run (DispatchContinues j # acts) s) ! j = DispatchRejected e"
    using st by (simp add: broker_run_def dispatch_rejected_def)
next
  assume o: "k < length (ops a) \<and>
        (ops a ! k = EmitLogAwaitEmit \<or> ops a ! k = CompleteAwaitSetStatus result)"
  then show st: "agent_step (AwaitedSettles k (Inl e)) a = a\<lparr>ops := (ops a)[k := OpRejected e]\<rparr>"
    by (auto simp: agent_step_def emitLog_resume_def complete_resume_def)
  have "op_rejected k e (a\<lparr>ops := (ops a)[k := OpRejected e]\<rparr>)"
    using o by (simp add: op_rejected_def)
  from op_rejected_run [OF this]
  show "\<forall>acts. ops (agent_run (AwaitedSettles k (Inl e) # acts) a) ! k = OpRejected e"
    using st by (simp add: agent_run_def op_rejected_def)
next
  show "agent_step (UnawaitedRejects e) a = a\<lparr>unhandled := unhandled a @ [e]\<rparr>"
    by (simp add: agent_step_def)
qed

text \<open>
  The theorem of C6 at a broker whose \<^verbatim>\<open>claimTask\<close> and \<^verbatim>\<open>createTask\<close> have failed and at
  an agent whose \<^verbatim>\<open>emitLog\<close> awaits \<^verbatim>\<open>emit\<close>: each call ends rejected with the storage's error
  and stays so, and \<^verbatim>\<open>claim\<close> has issued its one \<^verbatim>\<open>claimTask\<close> only.
\<close>

theorem storage_failure_rejects_the_awaiting_call_witness:
  "claimer failing_broker = ClaimTaskAnswered (Inl (Error ''storage is down''))
   \<and> dispatchers failing_broker ! 0 = CreateTaskAnswered (Inl (Error ''storage is down''))
   \<and> ops logging ! 0 = EmitLogAwaitEmit
   \<and> claimer (broker_run [ClaimContinues, ClaimContinues, ClaimTaskSettles (Inr None)]
        failing_broker) = ClaimRejected (Error ''storage is down'')
   \<and> attempts (broker_run [ClaimContinues, ClaimContinues, ClaimTaskSettles (Inr None)]
        failing_broker) = 1
   \<and> dispatchers (broker_run [DispatchContinues 0, DispatchContinues 0] failing_broker) ! 0 =
       DispatchRejected (Error ''storage is down'')
   \<and> ops (agent_run [AwaitedSettles 0 (Inl (Error ''storage is down'')),
                      AwaitedSettles 0 (Inr ())] logging) ! 0 =
       OpRejected (Error ''storage is down'')"
proof -
  let ?e = "Error ''storage is down''"
  have h: "claimer failing_broker = ClaimTaskAnswered (Inl ?e)"
    "0 < length (dispatchers failing_broker)"
    "dispatchers failing_broker ! 0 = CreateTaskAnswered (Inl ?e)"
    "0 < length (ops logging)" "ops logging ! 0 = EmitLogAwaitEmit"
    "attempts failing_broker = 1"
    by code_simp+
  from storage_failure_rejects_the_awaiting_call [of failing_broker ?e 0 0 logging] h
  have "\<forall>acts. claimer (broker_run (ClaimContinues # acts) failing_broker) = ClaimRejected ?e \<and>
              attempts (broker_run (ClaimContinues # acts) failing_broker) = attempts failing_broker"
    and "\<forall>acts. dispatchers (broker_run (DispatchContinues 0 # acts) failing_broker) ! 0 =
              DispatchRejected ?e"
    and "\<forall>acts. ops (agent_run (AwaitedSettles 0 (Inl ?e) # acts) logging) ! 0 = OpRejected ?e"
    by blast+
  then show ?thesis using h by simp
qed

section \<open>The subscription\<close>

subsection \<open>A rejected poll\<close>

lemma failed_step:
  "pc ob = ObserveFailed e \<Longrightarrow>
     pc (observe_step cb a ob) = ObserveFailed e \<and>
     invocations (observe_step cb a ob) = invocations ob \<and>
     polls (observe_step cb a ob) = polls ob"
  by (cases a) (auto simp: observe_step_def unsubscribe_def)

lemma failed_run:
  "pc ob = ObserveFailed e \<Longrightarrow>
     pc (observe_run cb acts ob) = ObserveFailed e \<and>
     invocations (observe_run cb acts ob) = invocations ob \<and>
     polls (observe_run cb acts ob) = polls ob"
proof (induction acts arbitrary: ob)
  case Nil
  then show ?case by (simp add: observe_run_def)
next
  case (Cons a acts)
  from failed_step [OF Cons.prems, of cb a] Cons.IH [of "observe_step cb a ob"]
  show ?case by (simp add: observe_run_def)
qed

text \<open>
  C10. When the storage rejects the \<^verbatim>\<open>getEvents\<close> call a subscription awaits, the loop is
  over for good: whatever happens afterwards, the subscription stays failed with that
  error, no further \<^verbatim>\<open>getEvents\<close> is issued, and the callback is not invoked again, so the
  error of the storage is never given to it.
\<close>

theorem getEvents_rejection_ends_the_subscription:
  "pc ob = GetEventsInFlight opts \<Longrightarrow>
     pc (observe_run cb (GetEventsSettles (Inl e) # acts) ob) = ObserveFailed e \<and>
     invocations (observe_run cb (GetEventsSettles (Inl e) # acts) ob) = invocations ob \<and>
     polls (observe_run cb (GetEventsSettles (Inl e) # acts) ob) = polls ob"
proof -
  assume a: "pc ob = GetEventsInFlight opts"
  let ?ob = "observe_step cb (GetEventsSettles (Inl e)) ob"
  have s: "pc ?ob = ObserveFailed e \<and> invocations ?ob = invocations ob \<and> polls ?ob = polls ob"
    using a by (simp add: observe_step_def observe_resume_def)
  have r: "observe_run cb (GetEventsSettles (Inl e) # acts) ob = observe_run cb acts ?ob"
    by (simp add: observe_run_def)
  from s failed_run [of ?ob e cb acts] show ?thesis unfolding r by simp
qed

text \<open>
  The theorem of C10 at a new subscription whose first poll is rejected: the timeout and a
  later answer with an event change nothing, the callback is never invoked and the one poll
  stays the only one.
\<close>

theorem getEvents_rejection_ends_the_subscription_witness:
  "pc (observe example_options) = GetEventsInFlight example_options
   \<and> pc (observe_run never_throws
        [GetEventsSettles (Inl (Error ''storage is down'')), TimeoutElapses,
         GetEventsSettles (Inr [example_event 1])] (observe example_options))
       = ObserveFailed (Error ''storage is down'')
   \<and> invocations (observe_run never_throws
        [GetEventsSettles (Inl (Error ''storage is down'')), TimeoutElapses,
         GetEventsSettles (Inr [example_event 1])] (observe example_options)) = []
   \<and> polls (observe_run never_throws
        [GetEventsSettles (Inl (Error ''storage is down'')), TimeoutElapses,
         GetEventsSettles (Inr [example_event 1])] (observe example_options)) = [example_options]"
proof -
  have h: "pc (observe example_options) = GetEventsInFlight example_options" by code_simp
  have i: "invocations (observe example_options) = []"
    "polls (observe example_options) = [example_options]" by code_simp+
  from getEvents_rejection_ends_the_subscription
    [OF h, of never_throws "Error ''storage is down''"
      "[TimeoutElapses, GetEventsSettles (Inr [example_event 1])]"]
  show ?thesis using h i by simp
qed

subsection \<open>The answer of a poll\<close>

text \<open>
  What the body of the loop does with a batch that is not empty, whatever \<^verbatim>\<open>cancelled\<close>
  is: it sets \<^verbatim>\<open>after\<close> and invokes the callback with the batch; if that invocation throws
  \<open>v\<close> it invokes the callback with \<open>v\<close> and no events.
\<close>

lemma resume_returning:
  assumes "pc ob = GetEventsInFlight opts" and "evs \<noteq> []"
    and "thrown (cb (map args_of (invocations ob) @ [(Undefined, evs)])) = None"
  shows "observe_step cb (GetEventsSettles (Inr evs)) ob =
     ob\<lparr>after := Some (ev_id (last evs)),
        invocations := invocations ob @
          [\<lparr>inv_error = Undefined, inv_events = evs, inv_catch = False,
            inv_after = Some (ev_id (last evs)), inv_cancelled = cancelled ob,
            inv_thrown = None\<rparr>],
        cancelled :=
          (cancelled ob \<or> unsubscribed (cb (map args_of (invocations ob) @ [(Undefined, evs)]))),
        pc := Sleeping\<rparr>"
  using assms by (simp add: observe_step_def observe_resume_def invoke_def)

lemma resume_throwing:
  assumes "pc ob = GetEventsInFlight opts" and "evs \<noteq> []"
    and "thrown (cb (map args_of (invocations ob) @ [(Undefined, evs)])) = Some v"
  shows "observe_step cb (GetEventsSettles (Inr evs)) ob =
     ob\<lparr>after := Some (ev_id (last evs)),
        invocations := invocations ob @
          [\<lparr>inv_error = Undefined, inv_events = evs, inv_catch = False,
            inv_after = Some (ev_id (last evs)), inv_cancelled = cancelled ob,
            inv_thrown = Some v\<rparr>,
           \<lparr>inv_error = v, inv_events = [], inv_catch = True,
            inv_after = Some (ev_id (last evs)),
            inv_cancelled =
              (cancelled ob \<or>
               unsubscribed (cb (map args_of (invocations ob) @ [(Undefined, evs)]))),
            inv_thrown =
              thrown (cb (map args_of (invocations ob) @ [(Undefined, evs), (v, [])]))\<rparr>],
        cancelled :=
          (cancelled ob \<or>
           unsubscribed (cb (map args_of (invocations ob) @ [(Undefined, evs)])) \<or>
           unsubscribed (cb (map args_of (invocations ob) @ [(Undefined, evs), (v, [])]))),
        pc := (case thrown (cb (map args_of (invocations ob) @ [(Undefined, evs), (v, [])])) of
                 None \<Rightarrow> Sleeping
               | Some w \<Rightarrow> CallbackThrew w)\<rparr>"
  using assms
  by (auto simp: observe_step_def observe_resume_def invoke_def args_of_def split: option.splits)

lemma resume_empty:
  "pc ob = GetEventsInFlight opts \<Longrightarrow>
     observe_step cb (GetEventsSettles (Inr [])) ob = ob\<lparr>pc := Sleeping\<rparr>"
  by (simp add: observe_step_def observe_resume_def)

subsection \<open>Cancellation\<close>

lemma cancelled_step:
  "cancelled ob \<Longrightarrow>
     cancelled (observe_step cb a ob) \<and> polls (observe_step cb a ob) = polls ob \<and>
     length (invocations (observe_step cb a ob)) + budget (observe_step cb a ob)
       \<le> length (invocations ob) + budget ob"
  by (cases a)
     (auto simp: observe_step_def unsubscribe_def observe_resume_def invoke_def budget_def
                 loop_head_def
           split: ObservePc.splits sum.splits option.splits)

lemma cancelled_run:
  "cancelled ob \<Longrightarrow>
     polls (observe_run cb acts ob) = polls ob \<and>
     length (invocations (observe_run cb acts ob)) + budget (observe_run cb acts ob)
       \<le> length (invocations ob) + budget ob"
proof (induction acts arbitrary: ob)
  case Nil
  then show ?case by (simp add: observe_run_def)
next
  case (Cons a acts)
  from cancelled_step [OF Cons.prems, of cb a] Cons.IH [of "observe_step cb a ob"]
  show ?case by (simp add: observe_run_def)
qed

text \<open>
  The claim as stated fails: \<^verbatim>\<open>cancelled\<close> is read at the head of the loop only. Here
  \<^verbatim>\<open>unsubscribe\<close> is called while the first poll is in flight; the poll is then answered
  with one event, and the callback is invoked with it, after the call of \<^verbatim>\<open>unsubscribe\<close>
  has returned (\<open>inv_cancelled\<close> is true) and although no invocation was in progress at that
  time.
\<close>

theorem unsubscribe_during_poll_still_invokes_callback:
  "observe_run never_throws [Unsubscribe, GetEventsSettles (Inr [example_event 1])]
     (observe example_options)
   = \<lparr>obs_taskId = ''T1'', after = Some 1, cancelled = True, pc = Sleeping,
      invocations =
        [\<lparr>inv_error = Undefined, inv_events = [example_event 1], inv_catch = False,
          inv_after = Some 1, inv_cancelled = True, inv_thrown = None\<rparr>],
      polls = [example_options]\<rparr>"
  by code_simp

text \<open>
  A second way: the callback calls \<^verbatim>\<open>unsubscribe\<close> while it handles a batch and then
  throws. The \<^verbatim>\<open>catch\<close> block invokes it once more, after the call of \<^verbatim>\<open>unsubscribe\<close> has
  returned and with no poll in flight.
\<close>

lemma unsubscribe_inside_callback_still_invokes_callback:
  "observe_run unsubscribes_and_throws [GetEventsSettles (Inr [example_event 1])]
     (observe example_options)
   = \<lparr>obs_taskId = ''T1'', after = Some 1, cancelled = True, pc = Sleeping,
      invocations =
        [\<lparr>inv_error = Undefined, inv_events = [example_event 1], inv_catch = False,
          inv_after = Some 1, inv_cancelled = False,
          inv_thrown = Some (ErrorValue (Error ''boom''))\<rparr>,
         \<lparr>inv_error = ErrorValue (Error ''boom''), inv_events = [], inv_catch = True,
          inv_after = Some 1, inv_cancelled = True, inv_thrown = None\<rparr>],
      polls = [example_options]\<rparr>"
  by code_simp

text \<open>
  C3 (amended). Cancellation takes effect at the head of the loop. Once \<^verbatim>\<open>unsubscribe\<close>
  has been called, by anybody, no further \<^verbatim>\<open>getEvents\<close> call is issued, whatever happens
  next, and the loop returns when its timeout elapses. The iteration under way at the time
  of the call is still finished. If its poll is in flight and is answered with a batch that
  is not empty, the callback is invoked with that batch. If an invocation with a batch
  throws, the callback is invoked once more, with the value thrown and no events; this
  holds also when \<^verbatim>\<open>unsubscribe\<close> was called before that invocation or by the callback
  during it. No other invocation begins: after the call at most two when a poll is in
  flight, and none when the loop is at its timeout or has ended.
\<close>

theorem unsubscribe_stops_polling_and_the_iteration_finishes:
  "polls (observe_run cb (Unsubscribe # acts) ob) = polls ob
   \<and> (cancelled ob \<longrightarrow>
        polls (observe_run cb acts ob) = polls ob \<and>
        length (invocations (observe_run cb acts ob))
          \<le> length (invocations ob) + (case pc ob of GetEventsInFlight opts \<Rightarrow> 2 | _ \<Rightarrow> 0))
   \<and> (cancelled ob \<and> pc ob = Sleeping \<longrightarrow>
        observe_step cb TimeoutElapses ob = ob\<lparr>pc := Exited\<rparr>)
   \<and> (pc ob = GetEventsInFlight opts \<and> evs \<noteq> [] \<longrightarrow>
        take (Suc (length (invocations ob)))
          (invocations (observe_run cb [Unsubscribe, GetEventsSettles (Inr evs)] ob)) =
        invocations ob @
          [\<lparr>inv_error = Undefined, inv_events = evs, inv_catch = False,
            inv_after = Some (ev_id (last evs)), inv_cancelled = True,
            inv_thrown = thrown (cb (map args_of (invocations ob) @ [(Undefined, evs)]))\<rparr>])
   \<and> (pc ob = GetEventsInFlight opts \<and> evs \<noteq> [] \<and>
      thrown (cb (map args_of (invocations ob) @ [(Undefined, evs)])) = Some v \<and>
      (cancelled ob \<or> unsubscribed (cb (map args_of (invocations ob) @ [(Undefined, evs)]))) \<longrightarrow>
        invocations (observe_step cb (GetEventsSettles (Inr evs)) ob) =
        invocations ob @
          [\<lparr>inv_error = Undefined, inv_events = evs, inv_catch = False,
            inv_after = Some (ev_id (last evs)), inv_cancelled = cancelled ob,
            inv_thrown = Some v\<rparr>,
           \<lparr>inv_error = v, inv_events = [], inv_catch = True,
            inv_after = Some (ev_id (last evs)), inv_cancelled = True,
            inv_thrown =
              thrown (cb (map args_of (invocations ob) @ [(Undefined, evs), (v, [])]))\<rparr>]
        \<and> cancelled (observe_step cb (GetEventsSettles (Inr evs)) ob))"
proof (intro conjI impI)
  have r: "observe_run cb (Unsubscribe # acts) ob = observe_run cb acts (unsubscribe ob)"
    by (simp add: observe_run_def observe_step_def)
  have c: "cancelled (unsubscribe ob)" by (simp add: unsubscribe_def)
  from cancelled_run [OF c, of cb acts]
  show "polls (observe_run cb (Unsubscribe # acts) ob) = polls ob"
    unfolding r by (simp add: unsubscribe_def)
next
  assume "cancelled ob"
  from cancelled_run [OF this, of cb acts]
  show "polls (observe_run cb acts ob) = polls ob"
    and "length (invocations (observe_run cb acts ob))
          \<le> length (invocations ob) + (case pc ob of GetEventsInFlight opts \<Rightarrow> 2 | _ \<Rightarrow> 0)"
    by (simp_all add: budget_def)
next
  assume "cancelled ob \<and> pc ob = Sleeping"
  then show "observe_step cb TimeoutElapses ob = ob\<lparr>pc := Exited\<rparr>"
    by (simp add: observe_step_def loop_head_def)
next
  assume a: "pc ob = GetEventsInFlight opts \<and> evs \<noteq> []"
  then show "take (Suc (length (invocations ob)))
          (invocations (observe_run cb [Unsubscribe, GetEventsSettles (Inr evs)] ob)) =
        invocations ob @
          [\<lparr>inv_error = Undefined, inv_events = evs, inv_catch = False,
            inv_after = Some (ev_id (last evs)), inv_cancelled = True,
            inv_thrown = thrown (cb (map args_of (invocations ob) @ [(Undefined, evs)]))\<rparr>]"
    by (auto simp: observe_run_def observe_step_def unsubscribe_def observe_resume_def
          invoke_def split: option.splits)
next
  assume a: "pc ob = GetEventsInFlight opts \<and> evs \<noteq> [] \<and>
      thrown (cb (map args_of (invocations ob) @ [(Undefined, evs)])) = Some v \<and>
      (cancelled ob \<or> unsubscribed (cb (map args_of (invocations ob) @ [(Undefined, evs)])))"
  then have st: "pc ob = GetEventsInFlight opts" "evs \<noteq> []"
    "thrown (cb (map args_of (invocations ob) @ [(Undefined, evs)])) = Some v"
    by simp_all
  show "invocations (observe_step cb (GetEventsSettles (Inr evs)) ob) =
        invocations ob @
          [\<lparr>inv_error = Undefined, inv_events = evs, inv_catch = False,
            inv_after = Some (ev_id (last evs)), inv_cancelled = cancelled ob,
            inv_thrown = Some v\<rparr>,
           \<lparr>inv_error = v, inv_events = [], inv_catch = True,
            inv_after = Some (ev_id (last evs)), inv_cancelled = True,
            inv_thrown =
              thrown (cb (map args_of (invocations ob) @ [(Undefined, evs), (v, [])]))\<rparr>]"
    using a
    unfolding resume_throwing [where ob = ob and cb = cb and evs = evs and v = v, OF st]
    by auto
  show "cancelled (observe_step cb (GetEventsSettles (Inr evs)) ob)"
    using a
    unfolding resume_throwing [where ob = ob and cb = cb and evs = evs and v = v, OF st]
    by auto
qed

text \<open>
  The theorem of C3 at a new subscription. Cancelled from outside during its first poll:
  whatever the schedule offers afterwards, the first poll stays the only one, and the answer
  of that poll is still given to the callback. With a callback that calls \<^verbatim>\<open>unsubscribe\<close>
  and throws: it is invoked once more with what it threw, and the loop returns at its
  timeout.
\<close>

theorem unsubscribe_stops_polling_and_the_iteration_finishes_witness:
  "polls (observe_run never_throws
      [Unsubscribe, GetEventsSettles (Inr [example_event 1]), TimeoutElapses,
       GetEventsSettles (Inr [example_event 2])] (observe example_options)) = [example_options]
   \<and> take 1 (invocations (observe_run never_throws
      [Unsubscribe, GetEventsSettles (Inr [example_event 1])] (observe example_options))) =
       [\<lparr>inv_error = Undefined, inv_events = [example_event 1], inv_catch = False,
         inv_after = Some 1, inv_cancelled = True, inv_thrown = None\<rparr>]
   \<and> invocations (observe_step unsubscribes_and_throws
        (GetEventsSettles (Inr [example_event 1])) (observe example_options)) =
       [\<lparr>inv_error = Undefined, inv_events = [example_event 1], inv_catch = False,
         inv_after = Some 1, inv_cancelled = False,
         inv_thrown = Some (ErrorValue (Error ''boom''))\<rparr>,
        \<lparr>inv_error = ErrorValue (Error ''boom''), inv_events = [], inv_catch = True,
         inv_after = Some 1, inv_cancelled = True, inv_thrown = None\<rparr>]
   \<and> observe_step unsubscribes_and_throws TimeoutElapses
       (observe_step unsubscribes_and_throws
          (GetEventsSettles (Inr [example_event 1])) (observe example_options)) =
     (observe_step unsubscribes_and_throws
          (GetEventsSettles (Inr [example_event 1])) (observe example_options))\<lparr>pc := Exited\<rparr>"
proof -
  let ?ob = "observe example_options"
  let ?ob1 = "observe_step unsubscribes_and_throws (GetEventsSettles (Inr [example_event 1])) ?ob"
  have i: "invocations ?ob = []" "polls ?ob = [example_options]"
    "pc ?ob = GetEventsInFlight example_options" "[example_event 1] \<noteq> []"
    "ev_id (last [example_event 1]) = 1" "\<not> cancelled ?ob"
    by code_simp+
  have n: "thrown (never_throws (map args_of (invocations ?ob) @ [(Undefined, [example_event 1])]))
      = None" by code_simp
  have u: "thrown (unsubscribes_and_throws
        (map args_of (invocations ?ob) @ [(Undefined, [example_event 1])])) =
      Some (ErrorValue (Error ''boom''))"
    "unsubscribed (unsubscribes_and_throws
        (map args_of (invocations ?ob) @ [(Undefined, [example_event 1])]))"
    "thrown (unsubscribes_and_throws
        (map args_of (invocations ?ob) @
          [(Undefined, [example_event 1]), (ErrorValue (Error ''boom''), [])])) = None"
    by code_simp+
  have s: "cancelled ?ob1" "pc ?ob1 = Sleeping" by code_simp+
  note t1 = unsubscribe_stops_polling_and_the_iteration_finishes
    [of never_throws "[GetEventsSettles (Inr [example_event 1]), TimeoutElapses,
       GetEventsSettles (Inr [example_event 2])]" ?ob _ "[example_event 1]"]
  note t2 = unsubscribe_stops_polling_and_the_iteration_finishes
    [of unsubscribes_and_throws "[]" ?ob example_options "[example_event 1]"
      "ErrorValue (Error ''boom'')"]
  note t3 = unsubscribe_stops_polling_and_the_iteration_finishes
    [of unsubscribes_and_throws "[]" ?ob1]
  have 1: "polls (observe_run never_throws
      [Unsubscribe, GetEventsSettles (Inr [example_event 1]), TimeoutElapses,
       GetEventsSettles (Inr [example_event 2])] ?ob) = [example_options]"
    using t1 i by simp
  have 2: "take 1 (invocations (observe_run never_throws
      [Unsubscribe, GetEventsSettles (Inr [example_event 1])] ?ob)) =
       [\<lparr>inv_error = Undefined, inv_events = [example_event 1], inv_catch = False,
         inv_after = Some 1, inv_cancelled = True, inv_thrown = None\<rparr>]"
    using t1 [of example_options] i n by simp
  have 3: "invocations ?ob1 =
       [\<lparr>inv_error = Undefined, inv_events = [example_event 1], inv_catch = False,
         inv_after = Some 1, inv_cancelled = False,
         inv_thrown = Some (ErrorValue (Error ''boom''))\<rparr>,
        \<lparr>inv_error = ErrorValue (Error ''boom''), inv_events = [], inv_catch = True,
         inv_after = Some 1, inv_cancelled = True, inv_thrown = None\<rparr>]"
    using t2 i u by simp
  have 4: "observe_step unsubscribes_and_throws TimeoutElapses ?ob1 = ?ob1\<lparr>pc := Exited\<rparr>"
    using t3 s by simp
  show ?thesis using 1 2 3 4 by simp
qed

subsection \<open>A callback that throws\<close>

lemma threw_step:
  "pc ob = CallbackThrew w \<Longrightarrow>
     pc (observe_step cb a ob) = CallbackThrew w \<and>
     invocations (observe_step cb a ob) = invocations ob \<and>
     polls (observe_step cb a ob) = polls ob"
  by (cases a) (auto simp: observe_step_def unsubscribe_def)

lemma threw_run:
  "pc ob = CallbackThrew w \<Longrightarrow>
     pc (observe_run cb acts ob) = CallbackThrew w \<and>
     invocations (observe_run cb acts ob) = invocations ob \<and>
     polls (observe_run cb acts ob) = polls ob"
proof (induction acts arbitrary: ob)
  case Nil
  then show ?case by (simp add: observe_run_def)
next
  case (Cons a acts)
  from threw_step [OF Cons.prems, of cb a] Cons.IH [of "observe_step cb a ob"]
  show ?case by (simp add: observe_run_def)
qed

text \<open>
  C2. The claim is that an error thrown by the callback on a batch never stops the loop:
  it is caught and given to the callback, polling goes on, and the next batch is
  delivered. The code catches the error of \<^verbatim>\<open>callback(undefined, result)\<close> and calls
  \<^verbatim>\<open>callback(error, { events: [] })\<close> inside the \<^verbatim>\<open>catch\<close> block, where nothing catches
  what that call throws. With the callback below, which throws on every invocation, the
  first batch is answered, the callback throws, is given the error and throws again; the
  asynchronous function is left by that second error. The timeout and the answer with the
  second event then do nothing: no second \<^verbatim>\<open>getEvents\<close> is issued and the second batch is
  never delivered.
\<close>

theorem callback_throwing_twice_stops_polling:
  "observe_run always_throws
     [GetEventsSettles (Inr [example_event 1]), TimeoutElapses,
      GetEventsSettles (Inr [example_event 2])] (observe example_options)
   = \<lparr>obs_taskId = ''T1'', after = Some 1, cancelled = False,
      pc = CallbackThrew (ErrorValue (Error ''boom'')),
      invocations =
        [\<lparr>inv_error = Undefined, inv_events = [example_event 1], inv_catch = False,
          inv_after = Some 1, inv_cancelled = False,
          inv_thrown = Some (ErrorValue (Error ''boom''))\<rparr>,
         \<lparr>inv_error = ErrorValue (Error ''boom''), inv_events = [], inv_catch = True,
          inv_after = Some 1, inv_cancelled = False,
          inv_thrown = Some (ErrorValue (Error ''boom''))\<rparr>],
      polls = [example_options]\<rparr>"
  by code_simp

text \<open>
  The same for every subscription, batch and callback: when the invocation with the batch
  throws \<open>v\<close> and the invocation with \<open>v\<close> throws \<open>w\<close>, the loop has ended with \<open>w\<close>, and no
  later schedule issues a poll or invokes the callback.
\<close>

lemma second_throw_ends_the_loop:
  assumes "pc ob = GetEventsInFlight opts" and "evs \<noteq> []"
    and "thrown (cb (map args_of (invocations ob) @ [(Undefined, evs)])) = Some v"
    and "thrown (cb (map args_of (invocations ob) @ [(Undefined, evs), (v, [])])) = Some w"
  shows "pc (observe_run cb (GetEventsSettles (Inr evs) # acts) ob) = CallbackThrew w
       \<and> polls (observe_run cb (GetEventsSettles (Inr evs) # acts) ob) = polls ob
       \<and> invocations (observe_run cb (GetEventsSettles (Inr evs) # acts) ob) =
           invocations ob @
             [\<lparr>inv_error = Undefined, inv_events = evs, inv_catch = False,
               inv_after = Some (ev_id (last evs)), inv_cancelled = cancelled ob,
               inv_thrown = Some v\<rparr>,
              \<lparr>inv_error = v, inv_events = [], inv_catch = True,
               inv_after = Some (ev_id (last evs)),
               inv_cancelled =
                 (cancelled ob \<or>
                  unsubscribed (cb (map args_of (invocations ob) @ [(Undefined, evs)]))),
               inv_thrown = Some w\<rparr>]"
proof -
  let ?ob = "observe_step cb (GetEventsSettles (Inr evs)) ob"
  note eq = resume_throwing [where ob = ob and cb = cb and evs = evs and v = v, OF assms(1-3)]
  have p: "pc ?ob = CallbackThrew w" unfolding eq using assms(4) by simp
  have r: "observe_run cb (GetEventsSettles (Inr evs) # acts) ob = observe_run cb acts ?ob"
    by (simp add: observe_run_def)
  have i: "invocations ?ob =
           invocations ob @
             [\<lparr>inv_error = Undefined, inv_events = evs, inv_catch = False,
               inv_after = Some (ev_id (last evs)), inv_cancelled = cancelled ob,
               inv_thrown = Some v\<rparr>,
              \<lparr>inv_error = v, inv_events = [], inv_catch = True,
               inv_after = Some (ev_id (last evs)),
               inv_cancelled =
                 (cancelled ob \<or>
                  unsubscribed (cb (map args_of (invocations ob) @ [(Undefined, evs)]))),
               inv_thrown = Some w\<rparr>]"
    and q: "polls ?ob = polls ob"
    unfolding eq using assms(4) by simp_all
  from threw_run [OF p, of cb acts] i q show ?thesis unfolding r by simp
qed

text \<open>
  When the invocation with the error returns, the loop goes on: it sleeps, polls for the
  events after the batch, and delivers the next batch.
\<close>

lemma caught_error_then_polling_continues:
  assumes "pc ob = GetEventsInFlight opts" and "evs \<noteq> []"
    and "cb (map args_of (invocations ob) @ [(Undefined, evs)]) =
           \<lparr>thrown = Some v, unsubscribed = False\<rparr>"
    and "cb (map args_of (invocations ob) @ [(Undefined, evs), (v, [])]) =
           \<lparr>thrown = None, unsubscribed = False\<rparr>"
    and "\<not> cancelled ob" and "later \<noteq> []"
  shows "pc (observe_step cb (GetEventsSettles (Inr evs)) ob) = Sleeping
       \<and> polls (observe_run cb
                 [GetEventsSettles (Inr evs), TimeoutElapses, GetEventsSettles (Inr later)] ob)
           = polls ob @ [\<lparr>get_taskId = obs_taskId ob, get_after = Some (ev_id (last evs))\<rparr>]
       \<and> take (length (invocations ob) + 3)
            (invocations (observe_run cb
                 [GetEventsSettles (Inr evs), TimeoutElapses, GetEventsSettles (Inr later)] ob))
           = invocations ob @
             [\<lparr>inv_error = Undefined, inv_events = evs, inv_catch = False,
               inv_after = Some (ev_id (last evs)), inv_cancelled = False,
               inv_thrown = Some v\<rparr>,
              \<lparr>inv_error = v, inv_events = [], inv_catch = True,
               inv_after = Some (ev_id (last evs)), inv_cancelled = False,
               inv_thrown = None\<rparr>,
              \<lparr>inv_error = Undefined, inv_events = later, inv_catch = False,
               inv_after = Some (ev_id (last later)), inv_cancelled = False,
               inv_thrown =
                 thrown (cb (map args_of (invocations ob) @
                   [(Undefined, evs), (v, []), (Undefined, later)]))\<rparr>]"
  using assms
  by (auto simp: observe_run_def observe_step_def observe_resume_def invoke_def args_of_def
        loop_head_def split: option.splits)

subsection \<open>What a subscription delivers\<close>

lemma asc_split:
  "asc xs \<Longrightarrow> filter (\<lambda>e. ev_id e \<le> c) xs @ filter (\<lambda>e. c < ev_id e) xs = xs"
proof (induction xs)
  case Nil
  then show ?case by simp
next
  case (Cons x xs)
  show ?case
  proof (cases "ev_id x \<le> c")
    case True
    with Cons show ?thesis by simp
  next
    case False
    with Cons.prems have "\<forall>e\<in>set xs. c < ev_id e" by auto
    then have "filter (\<lambda>e. ev_id e \<le> c) xs = []" "filter (\<lambda>e. c < ev_id e) xs = xs"
      by (auto simp: filter_empty_conv)
    with False show ?thesis by simp
  qed
qed

lemma asc_last_max: "asc xs \<Longrightarrow> e \<in> set xs \<Longrightarrow> ev_id e \<le> ev_id (last xs)"
  by (induction xs) (auto simp: order_less_imp_le)

lemma asc_last_filter:
  assumes "asc xs" and "filter (\<lambda>e. c < ev_id e) xs \<noteq> []"
  shows "last (filter (\<lambda>e. c < ev_id e) xs) = last xs"
proof -
  have "last xs = last (filter (\<lambda>e. ev_id e \<le> c) xs @ filter (\<lambda>e. c < ev_id e) xs)"
    using asc_split [OF assms(1), of c] by simp
  then show ?thesis using assms(2) by simp
qed

lemma asc_all_below:
  "asc xs \<Longrightarrow> xs \<noteq> [] \<Longrightarrow> filter (\<lambda>e. ev_id e \<le> ev_id (last xs)) xs = xs"
  by (simp add: filter_id_conv asc_last_max del: last_in_set)

lemma numbered_asc: "numbered t st \<Longrightarrow> asc (events_of t st)"
  by (simp add: numbered_def sorted_wrt_map)

lemma numbered_pos: "numbered t st \<Longrightarrow> e \<in> set (events_of t st) \<Longrightarrow> 0 < ev_id e"
  by (simp add: numbered_def list_all_iff)

lemma next_seq_above:
  "numbered t st \<Longrightarrow> e \<in> set (events_of t st) \<Longrightarrow> ev_id e < next_seq t st"
  using asc_last_max [OF numbered_asc, of t st e]
  by (cases "events_of t st") (auto simp: next_seq_def simp del: last.simps)

lemma next_seq_pos: "numbered t st \<Longrightarrow> 0 < next_seq t st"
proof (cases "events_of t st")
  case Nil
  then show ?thesis by (simp add: next_seq_def)
next
  case (Cons x xs)
  assume n: "numbered t st"
  have "last (x # xs) \<in> set (events_of t st)" unfolding Cons by (rule last_in_set) simp
  from numbered_pos [OF n this] show ?thesis using Cons
    by (simp add: next_seq_def del: last.simps)
qed

lemma events_of_emit:
  "events_of t (emit_store opts st) =
     (if emit_taskId opts = t
      then events_of t st @
        [\<lparr>ev_id = next_seq t st, ev_runId = emit_runId opts, ev_taskId = t,
          ev_body = emit_body opts, ev_type = emit_type opts, ev_createdAt = clock st\<rparr>]
      else events_of t st)"
  by (auto simp: events_of_def emit_store_def)

lemma numbered_emit: "numbered t st \<Longrightarrow> numbered t (emit_store opts st)"
proof (cases "emit_taskId opts = t")
  case False
  assume "numbered t st"
  then show ?thesis using False by (simp add: numbered_def events_of_emit)
next
  case True
  assume n: "numbered t st"
  show ?thesis
    using n next_seq_above [OF n] next_seq_pos [OF n] True
    by (auto simp: numbered_def events_of_emit sorted_wrt_append)
qed

lemma next_seq_emit: "numbered t st \<Longrightarrow> next_seq t st \<le> next_seq t (emit_store opts st)"
  by (cases "events_of t st") (auto simp: events_of_emit next_seq_def)

lemma tracking_emit: "tracking t st ob \<Longrightarrow> tracking t (emit_store opts st) ob"
proof -
  assume a: "tracking t st ob"
  then have n: "numbered t st" by (simp add: tracking_def)
  from a obtain c where c: "after ob = Some c" "0 \<le> c" "c < next_seq t st"
      "delivered ob = filter (\<lambda>e. ev_id e \<le> c) (events_of t st)"
    by (auto simp: tracking_def split: option.splits)
  have "filter (\<lambda>e. ev_id e \<le> c) (events_of t (emit_store opts st)) =
        filter (\<lambda>e. ev_id e \<le> c) (events_of t st)"
    using c(3) by (simp add: events_of_emit)
  moreover have "c < next_seq t (emit_store opts st)"
    using c(3) next_seq_emit [OF n, of opts] by simp
  ultimately show ?thesis using a c numbered_emit [OF n, of opts]
    by (auto simp: tracking_def split: ObservePc.splits)
qed

lemma getEvents_track:
  "getEvents_store \<lparr>get_taskId = t, get_after = Some c\<rparr> st =
     filter (\<lambda>e. c < ev_id e) (events_of t st)"
  by (simp add: getEvents_store_def newer_def [abs_def])

lemma delivered_resume:
  "delivered (observe_resume cb (Inr evs) ob) = delivered ob @ evs"
  by (auto simp: observe_resume_def invoke_def delivered_def split: option.splits)

lemma after_resume:
  "after (observe_resume cb (Inr evs) ob) = (if evs = [] then after ob else Some (ev_id (last evs)))"
  by (auto simp: observe_resume_def invoke_def split: option.splits)

lemma taskId_resume: "obs_taskId (observe_resume cb r ob) = obs_taskId ob"
  by (auto simp: observe_resume_def invoke_def split: option.splits sum.splits)

lemma pc_resume: "pc (observe_resume cb r ob) \<noteq> GetEventsInFlight opts"
  by (auto simp: observe_resume_def invoke_def split: option.splits sum.splits)

lemma poll_delivers_all:
  assumes "tracking t st ob" and "pc ob = GetEventsInFlight opts"
  shows "delivered (observe_resume cb (Inr (getEvents_store opts st)) ob) = events_of t st"
proof -
  from assms(1) obtain c where c: "after ob = Some c"
      "delivered ob = filter (\<lambda>e. ev_id e \<le> c) (events_of t st)"
    by (auto simp: tracking_def split: option.splits)
  from assms c have o: "opts = \<lparr>get_taskId = t, get_after = Some c\<rparr>"
    by (simp add: tracking_def)
  show ?thesis
    using asc_split [OF numbered_asc, of t st c] assms(1) c
    by (simp add: delivered_resume o getEvents_track tracking_def)
qed

lemma tracking_poll:
  assumes "tracking t st ob" and "pc ob = GetEventsInFlight opts"
  shows "tracking t st (observe_resume cb (Inr (getEvents_store opts st)) ob)"
proof -
  let ?xs = "events_of t st"
  from assms(1) have n: "numbered t st" by (simp add: tracking_def)
  from assms(1) obtain c where c: "after ob = Some c" "0 \<le> c" "c < next_seq t st"
      "delivered ob = filter (\<lambda>e. ev_id e \<le> c) ?xs"
    by (auto simp: tracking_def split: option.splits)
  from assms c have o: "opts = \<lparr>get_taskId = t, get_after = Some c\<rparr>"
    by (simp add: tracking_def)
  let ?b = "filter (\<lambda>e. c < ev_id e) ?xs"
  let ?ob = "observe_resume cb (Inr (getEvents_store opts st)) ob"
  have d: "delivered ?ob = ?xs" using poll_delivers_all [OF assms] .
  have pcs: "(case pc ?ob of
                GetEventsInFlight opts \<Rightarrow> opts = \<lparr>get_taskId = t, get_after = after ?ob\<rparr>
              | _ \<Rightarrow> True)"
    using pc_resume [of cb _ ob] by (auto split: ObservePc.splits)
  show ?thesis
  proof (cases "?b = []")
    case True
    then have "after ?ob = Some c" by (simp add: after_resume o getEvents_track c)
    moreover have "filter (\<lambda>e. ev_id e \<le> c) ?xs = ?xs"
      using asc_split [OF numbered_asc [OF n], of c] True by simp
    ultimately show ?thesis using assms(1) c d pcs
      by (simp add: tracking_def taskId_resume)
  next
    case False
    then have ne: "?xs \<noteq> []" by auto
    have l: "last ?b = last ?xs" using asc_last_filter [OF numbered_asc [OF n] False] .
    have a: "after ?ob = Some (ev_id (last ?xs))"
      using False l by (simp add: after_resume o getEvents_track)
    have "last ?xs \<in> set ?xs" using ne by simp
    then have p: "0 < ev_id (last ?xs)" "ev_id (last ?xs) < next_seq t st"
      using numbered_pos [OF n] next_seq_above [OF n] by blast+
    have f: "filter (\<lambda>e. ev_id e \<le> ev_id (last ?xs)) ?xs = ?xs"
      using asc_all_below [OF numbered_asc [OF n] ne] .
    show ?thesis using assms(1) a p f d pcs
      by (simp add: tracking_def taskId_resume)
  qed
qed

lemma tracking_observe:
  "tracking t st ob \<Longrightarrow> \<not> is_answer a \<Longrightarrow> tracking t st (observe_step cb a ob)"
  by (cases a)
     (auto simp: tracking_def observe_step_def unsubscribe_def loop_head_def delivered_def
                 observe_resume_def is_answer_def
           split: ObservePc.splits option.splits sum.splits)

lemma tracking_step:
  "tracking t (fst s) (snd s) \<Longrightarrow>
     tracking t (fst (feed_step cb a s)) (snd (feed_step cb a s))"
proof (cases a)
  case (Emit opts)
  assume "tracking t (fst s) (snd s)"
  then show ?thesis using Emit tracking_emit [of t "fst s" "snd s" opts]
    by (simp add: feed_step_def)
next
  case StoreRunsGetEvents
  assume a: "tracking t (fst s) (snd s)"
  show ?thesis
  proof (cases "pc (snd s)")
    case (GetEventsInFlight opts)
    then show ?thesis
      using StoreRunsGetEvents a tracking_poll [of t "fst s" "snd s" opts cb]
      by (simp add: feed_step_def observe_step_def)
  qed (use a StoreRunsGetEvents in \<open>simp_all add: feed_step_def\<close>)
next
  case (Observe b)
  assume "tracking t (fst s) (snd s)"
  then show ?thesis using Observe tracking_observe [of t "fst s" "snd s" b cb]
    by (simp add: feed_step_def)
qed

lemma tracking_run:
  "tracking t (fst s) (snd s) \<Longrightarrow>
     tracking t (fst (feed_run cb acts s)) (snd (feed_run cb acts s))"
  by (induction acts arbitrary: s) (simp_all add: feed_run_def tracking_step)

lemma tracking_observe_start:
  "numbered t st \<Longrightarrow> tracking t st (observe \<lparr>get_taskId = t, get_after = Some 0\<rparr>)"
proof -
  assume n: "numbered t st"
  have "filter (\<lambda>e. ev_id e \<le> 0) (events_of t st) = []"
    using numbered_pos [OF n] by (auto simp: filter_empty_conv not_le)
  then show ?thesis using n next_seq_pos [OF n]
    by (simp add: tracking_def observe_def loop_head_def delivered_def)
qed

lemma paired_append: "paired xs \<Longrightarrow> paired ys \<Longrightarrow> paired (xs @ ys)"
proof (induction xs rule: paired.induct)
  case 1
  then show ?case by simp
next
  case (2 i)
  then show ?case by (cases ys) simp_all
next
  case (3 i j js)
  then show ?case by (auto split: option.splits)
qed

lemma paired_resume:
  assumes "pc ob = GetEventsInFlight opts" and "paired (invocations ob)"
  shows "paired (invocations (observe_step cb (GetEventsSettles r) ob))"
proof (cases r)
  case (Inl e)
  then show ?thesis using assms by (simp add: observe_step_def observe_resume_def)
next
  case (Inr evs)
  show ?thesis
  proof (cases "evs = []")
    case True
    then show ?thesis using assms Inr by (simp add: observe_step_def observe_resume_def)
  next
    case False
    show ?thesis
    proof (cases "thrown (cb (map args_of (invocations ob) @ [(Undefined, evs)]))")
      case None
      show ?thesis
        unfolding Inr
          resume_returning [where ob = ob and cb = cb and evs = evs, OF assms(1) False None]
        using assms(2) False by (simp add: paired_append from_try_def)
    next
      case (Some v)
      show ?thesis
        unfolding Inr
          resume_throwing [where ob = ob and cb = cb and evs = evs and v = v,
            OF assms(1) False Some]
        using assms(2) False by (simp add: paired_append from_try_def from_catch_def)
    qed
  qed
qed

lemma paired_step:
  "paired (invocations ob) \<Longrightarrow> paired (invocations (observe_step cb a ob))"
proof (cases a)
  case Unsubscribe
  assume "paired (invocations ob)"
  then show ?thesis using Unsubscribe by (simp add: observe_step_def unsubscribe_def)
next
  case TimeoutElapses
  assume "paired (invocations ob)"
  then show ?thesis using TimeoutElapses
    by (auto simp: observe_step_def loop_head_def split: ObservePc.splits)
next
  case (GetEventsSettles r)
  assume p: "paired (invocations ob)"
  show ?thesis
  proof (cases "pc ob")
    case (GetEventsInFlight opts)
    from paired_resume [OF this p] show ?thesis using GetEventsSettles by simp
  qed (use p GetEventsSettles in \<open>simp_all add: observe_step_def\<close>)
qed

lemma paired_feed_step:
  "paired (invocations (snd s)) \<Longrightarrow> paired (invocations (snd (feed_step cb a s)))"
  by (cases a) (auto simp: feed_step_def paired_step split: ObservePc.splits)

lemma paired_run:
  "paired (invocations (snd s)) \<Longrightarrow> paired (invocations (snd (feed_run cb acts s)))"
  by (induction acts arbitrary: s) (simp_all add: feed_run_def paired_feed_step)

text \<open>
  The claim as stated fails: the callback is also invoked with an empty list of events.
  Here one event is emitted for task \<open>T1\<close> and the poll is answered with it. The callback
  throws on the batch, so the \<^verbatim>\<open>catch\<close> block invokes it with the error and with
  \<^verbatim>\<open>{ events: [] }\<close>; that invocation returns and the loop sleeps.
\<close>

theorem throwing_callback_is_invoked_with_empty_list:
  "feed_run throws_on_batch [Emit example_log, StoreRunsGetEvents]
     (store_empty, observe example_options)
   = (\<lparr>tasks = [], events = [example_event 1], clock = []\<rparr>,
      \<lparr>obs_taskId = ''T1'', after = Some 1, cancelled = False, pc = Sleeping,
       invocations =
         [\<lparr>inv_error = Undefined, inv_events = [example_event 1], inv_catch = False,
           inv_after = Some 1, inv_cancelled = False,
           inv_thrown = Some (ErrorValue (Error ''boom''))\<rparr>,
          \<lparr>inv_error = ErrorValue (Error ''boom''), inv_events = [], inv_catch = True,
           inv_after = Some 1, inv_cancelled = False, inv_thrown = None\<rparr>],
       polls = [example_options]\<rparr>)"
  by code_simp

text \<open>
  What is thrown need not be an error: a callback that throws \<^verbatim>\<open>undefined\<close> on the batch
  is invoked by the \<^verbatim>\<open>catch\<close> block with \<^verbatim>\<open>undefined\<close> and no events, so an invocation with
  an empty list cannot be told from its error argument.
\<close>

lemma thrown_undefined_arrives_without_error:
  "invocations (snd (feed_run throws_undefined_on_batch [Emit example_log, StoreRunsGetEvents]
     (store_empty, observe example_options)))
   = [\<lparr>inv_error = Undefined, inv_events = [example_event 1], inv_catch = False,
        inv_after = Some 1, inv_cancelled = False, inv_thrown = Some Undefined\<rparr>,
      \<lparr>inv_error = Undefined, inv_events = [], inv_catch = True,
        inv_after = Some 1, inv_cancelled = False, inv_thrown = None\<rparr>]"
  by code_simp

text \<open>
  C4 (amended). Take a storage that numbers the events of task \<open>t\<close> upwards from 1, a
  subscription to \<open>t\<close> started with \<^verbatim>\<open>after = 0\<close>, any callback and any schedule of emitted
  events, polls, timeouts, failures and cancellation. Then the invocations of the callback
  are these and no others. For every answered poll whose batch is not empty, one invocation
  with that batch and no error, made after \<^verbatim>\<open>after\<close> was set to the sequence number of the
  batch's last event; a poll answered with no events invokes nothing. And directly after
  every invocation with a batch that threw, one invocation of the \<^verbatim>\<open>catch\<close> block, with the
  value thrown and an empty list of events. The event lists of all invocations so far, one
  after the other, are the events of \<open>t\<close> up to the cursor, in the order of the storage,
  none twice; and whenever the storage answers the poll in flight, they are all the events
  emitted for \<open>t\<close> up to then.
\<close>

theorem delivered_batches_follow_the_event_log:
  assumes "numbered t st0"
    and "s = feed_run cb acts (st0, observe \<lparr>get_taskId = t, get_after = Some 0\<rparr>)"
  shows "paired (invocations (snd s))
       \<and> (\<exists>c. after (snd s) = Some c \<and>
               delivered (snd s) = filter (\<lambda>e. ev_id e \<le> c) (events_of t (fst s)))
       \<and> (\<forall>opts. pc (snd s) = GetEventsInFlight opts \<longrightarrow>
            delivered (snd (feed_step cb StoreRunsGetEvents s)) = events_of t (fst s) \<and>
            (getEvents_store opts (fst s) = [] \<longrightarrow>
               invocations (snd (feed_step cb StoreRunsGetEvents s)) = invocations (snd s)))"
proof (intro conjI)
  have tr: "tracking t (fst s) (snd s)"
    using tracking_run [of t "(st0, observe \<lparr>get_taskId = t, get_after = Some 0\<rparr>)" cb acts]
      tracking_observe_start [OF assms(1)] assms(2) by simp
  show "paired (invocations (snd s))"
    using paired_run [of "(st0, observe \<lparr>get_taskId = t, get_after = Some 0\<rparr>)" cb acts] assms(2)
    by (simp add: observe_def loop_head_def)
  show "\<exists>c. after (snd s) = Some c \<and>
               delivered (snd s) = filter (\<lambda>e. ev_id e \<le> c) (events_of t (fst s))"
    using tr by (auto simp: tracking_def split: option.splits)
  show "\<forall>opts. pc (snd s) = GetEventsInFlight opts \<longrightarrow>
            delivered (snd (feed_step cb StoreRunsGetEvents s)) = events_of t (fst s) \<and>
            (getEvents_store opts (fst s) = [] \<longrightarrow>
               invocations (snd (feed_step cb StoreRunsGetEvents s)) = invocations (snd s))"
    using poll_delivers_all [of t "fst s" "snd s" _ cb] tr
    by (auto simp: feed_step_def observe_step_def observe_resume_def)
qed

text \<open>
  The theorem of C4 on an empty storage, with the callback that throws on batches: two
  events are emitted with a poll between them and a poll in flight after them. The
  invocations so far are the first batch and the error it threw; when the poll in flight
  is answered the two events have been delivered, in order.
\<close>

theorem delivered_batches_follow_the_event_log_witness:
  "numbered ''T1'' store_empty
   \<and> paired (invocations (snd (feed_run throws_on_batch feed_schedule
       (store_empty, observe \<lparr>get_taskId = ''T1'', get_after = Some 0\<rparr>))))
   \<and> map args_of (invocations (snd (feed_run throws_on_batch feed_schedule
       (store_empty, observe \<lparr>get_taskId = ''T1'', get_after = Some 0\<rparr>)))) =
       [(Undefined, [example_event 1]), (ErrorValue (Error ''boom''), [])]
   \<and> events_of ''T1'' (fst (feed_run throws_on_batch feed_schedule
       (store_empty, observe \<lparr>get_taskId = ''T1'', get_after = Some 0\<rparr>))) =
       [example_event 1, example_event 2]
   \<and> delivered (snd (feed_step throws_on_batch StoreRunsGetEvents
       (feed_run throws_on_batch feed_schedule
          (store_empty, observe \<lparr>get_taskId = ''T1'', get_after = Some 0\<rparr>)))) =
       [example_event 1, example_event 2]"
proof -
  let ?s = "feed_run throws_on_batch feed_schedule
       (store_empty, observe \<lparr>get_taskId = ''T1'', get_after = Some 0\<rparr>)"
  have n: "numbered ''T1'' store_empty" by code_simp
  have p: "pc (snd ?s) = GetEventsInFlight \<lparr>get_taskId = ''T1'', get_after = Some 1\<rparr>"
    "events_of ''T1'' (fst ?s) = [example_event 1, example_event 2]"
    "map args_of (invocations (snd ?s)) =
       [(Undefined, [example_event 1]), (ErrorValue (Error ''boom''), [])]"
    by code_simp+
  from delivered_batches_follow_the_event_log [OF n refl, of throws_on_batch feed_schedule] p
  have "paired (invocations (snd ?s))"
    and "delivered (snd (feed_step throws_on_batch StoreRunsGetEvents ?s)) =
           events_of ''T1'' (fst ?s)"
    by auto
  then show ?thesis using n p by simp
qed

end
